theory Spec2Isabelle
  imports Complex_Main
begin

section \<open>JavaScript strings\<close>

text \<open>
  A JavaScript string is a sequence of UTF-16 code units. The pattern of the converter
  names the en dash (U+2013) and the em dash (U+2014), and \<open>trim\<close> and \<open>\s\<close> remove
  white space beyond Latin-1, so a code unit is a natural number and not an 8-bit
  \<open>char\<close>. \<open>js\<close> embeds an ASCII literal.
\<close>

type_synonym jsstring = "nat list"

definition js :: "string \<Rightarrow> jsstring" where
  "js s = map of_char s"

text \<open>
  White space and line terminators of ECMAScript: what \<open>String.prototype.trim\<close> strips
  and what \<open>\s\<close> matches. TAB, LF, VT, FF, CR, SP, NBSP, U+1680, U+2000 to U+200A,
  U+2028, U+2029, U+202F, U+205F, U+3000, U+FEFF.
\<close>

definition isWhiteSpace :: "nat \<Rightarrow> bool" where
  "isWhiteSpace c \<longleftrightarrow>
     c = 9 \<or> c = 10 \<or> c = 11 \<or> c = 12 \<or> c = 13 \<or> c = 32 \<or> c = 160 \<or> c = 5760 \<or>
     (8192 \<le> c \<and> c \<le> 8202) \<or> c = 8232 \<or> c = 8233 \<or> c = 8239 \<or> c = 8287 \<or>
     c = 12288 \<or> c = 65279"

text \<open>\<open>\d\<close> without the unicode flag: the ten ASCII digits.\<close>

definition isDigit :: "nat \<Rightarrow> bool" where
  "isDigit c \<longleftrightarrow> 48 \<le> c \<and> c \<le> 57"

text \<open>The class \<open>[;:]\<close>: semicolon (59) and colon (58).\<close>

definition isSeparator :: "nat \<Rightarrow> bool" where
  "isSeparator c \<longleftrightarrow> c = 59 \<or> c = 58"

text \<open>The class of the three dashes: hyphen-minus (45), en dash (8211), em dash (8212).\<close>

definition isDash :: "nat \<Rightarrow> bool" where
  "isDash c \<longleftrightarrow> c = 45 \<or> c = 8211 \<or> c = 8212"

text \<open>The line feed, \<open>'\n'\<close>.\<close>

definition isNewline :: "nat \<Rightarrow> bool" where
  "isNewline c \<longleftrightarrow> c = 10"

text \<open>\<open>s.trim()\<close>.\<close>

definition trim :: "jsstring \<Rightarrow> jsstring" where
  "trim s = rev (dropWhile isWhiteSpace (rev (dropWhile isWhiteSpace s)))"

text \<open>
  \<open>s.split(sep)\<close> for a separator that is one code unit of a class: \<open>split('\n')\<close> and
  \<open>split(/[;:]/)\<close>. Every separator ends a part, empty parts are kept, and the empty
  string splits into one empty part.
\<close>

fun split :: "(nat \<Rightarrow> bool) \<Rightarrow> jsstring \<Rightarrow> jsstring list" where
  "split P [] = [[]]"
| "split P (c # cs) =
     (if P c then [] # split P cs
      else (case split P cs of
              [] \<Rightarrow> [[c]]
            | part # parts \<Rightarrow> (c # part) # parts))"

text \<open>\<open>s.padStart(n, '0')\<close>.\<close>

definition padStart :: "nat \<Rightarrow> jsstring \<Rightarrow> jsstring" where
  "padStart n s = replicate (n - length s) 48 @ s"

text \<open>\<open>parts.join('\n')\<close>.\<close>

fun join :: "jsstring list \<Rightarrow> jsstring" where
  "join [] = []"
| "join [s] = s"
| "join (s # t # ts) = s @ 10 # join (t # ts)"

text \<open>
  \<open>s.indexOf(t)\<close>: the first position at which \<open>t\<close> occurs in \<open>s\<close>, \<open>-1\<close> when there is
  none.
\<close>

fun indexOfFrom :: "nat \<Rightarrow> jsstring \<Rightarrow> jsstring \<Rightarrow> int" where
  "indexOfFrom i [] t = (if t = [] then int i else - 1)"
| "indexOfFrom i (c # cs) t =
     (if take (length t) (c # cs) = t then int i else indexOfFrom (Suc i) cs t)"

definition indexOf :: "jsstring \<Rightarrow> jsstring \<Rightarrow> int" where
  "indexOf s t = indexOfFrom 0 s t"

text \<open>\<open>s.substring(start)\<close>: a negative start counts as 0, one past the end as the end.\<close>

definition substring :: "jsstring \<Rightarrow> int \<Rightarrow> jsstring" where
  "substring s start = drop (nat (max 0 start)) s"

text \<open>The decimal digits of a natural number, as a template literal prints an index.\<close>

fun decimal :: "nat \<Rightarrow> jsstring" where
  "decimal n = (if n < 10 then [48 + n] else decimal (n div 10) @ [48 + n mod 10])"

declare decimal.simps [simp del]

section \<open>JavaScript numbers\<close>

text \<open>
  A Number is an IEEE 754 binary64 value: not a number, an infinity with its sign, or
  a finite value \<open>(-1)\<^sup>s * m * 2\<^sup>e\<close> (the sign is kept for zero too).
\<close>

datatype jsnum = NaN | Infinity bool | Finite bool nat int

text \<open>The number of binary digits of a natural number.\<close>

fun bitlen :: "nat \<Rightarrow> nat" where
  "bitlen n = (if n = 0 then 0 else Suc (bitlen (n div 2)))"

declare bitlen.simps [simp del]

text \<open>
  The binary64 value nearest to the positive rational \<open>p / q\<close>, ties to the even
  significand: \<open>E\<close> is the binary exponent of \<open>p / q\<close>, \<open>t\<close> the exponent of the last
  place of its 53-bit significand (not below \<open>-1074\<close>, where the subnormal numbers
  are), \<open>n\<close> the significand before and \<open>n'\<close> after rounding. A value of \<open>2\<^sup>1\<^sup>0\<^sup>2\<^sup>4\<close> or more
  is an infinity.
\<close>

definition roundToDouble :: "bool \<Rightarrow> nat \<Rightarrow> nat \<Rightarrow> jsnum" where
  "roundToDouble neg p q =
     (let d = int (bitlen p) - int (bitlen q);
          E = (if q * 2 ^ nat d \<le> p * 2 ^ nat (- d) then d else d - 1);
          t = max E (- 1022) - 52;
          num = p * 2 ^ nat (- t);
          den = q * 2 ^ nat t;
          n = num div den;
          r = num mod den;
          n' = (if den < 2 * r \<or> (2 * r = den \<and> odd n) then n + 1 else n)
      in if 0 \<le> t \<and> 2 ^ 1024 \<le> n' * 2 ^ nat t then Infinity neg else Finite neg n' t)"

text \<open>The binary64 value nearest to \<open>p / q * 2\<^sup>e\<close>.\<close>

definition roundScaled :: "bool \<Rightarrow> nat \<Rightarrow> nat \<Rightarrow> int \<Rightarrow> jsnum" where
  "roundScaled neg p q e = roundToDouble neg (p * 2 ^ nat e) (q * 2 ^ nat (- e))"

text \<open>The operator \<open>/\<close> on Numbers.\<close>

fun divide :: "jsnum \<Rightarrow> jsnum \<Rightarrow> jsnum" where
  "divide NaN y = NaN"
| "divide x NaN = NaN"
| "divide (Infinity s) (Infinity t) = NaN"
| "divide (Infinity s) (Finite t n f) = Infinity (s \<noteq> t)"
| "divide (Finite s m e) (Infinity t) = Finite (s \<noteq> t) 0 0"
| "divide (Finite s m e) (Finite t n f) =
     (if n = 0 then (if m = 0 then NaN else Infinity (s \<noteq> t))
      else if m = 0 then Finite (s \<noteq> t) 0 0
      else roundScaled (s \<noteq> t) m n (e - f))"

text \<open>The operator \<open>*\<close> on Numbers.\<close>

fun multiply :: "jsnum \<Rightarrow> jsnum \<Rightarrow> jsnum" where
  "multiply NaN y = NaN"
| "multiply x NaN = NaN"
| "multiply (Infinity s) (Infinity t) = Infinity (s \<noteq> t)"
| "multiply (Infinity s) (Finite t n f) = (if n = 0 then NaN else Infinity (s \<noteq> t))"
| "multiply (Finite s m e) (Infinity t) = (if m = 0 then NaN else Infinity (s \<noteq> t))"
| "multiply (Finite s m e) (Finite t n f) =
     (if m * n = 0 then Finite (s \<noteq> t) 0 0
      else roundScaled (s \<noteq> t) (m * n) 1 (e + f))"

text \<open>
  An integral Number, the result of \<open>Math.round\<close>: not a number, an infinity, or an
  integer with its sign (so that \<open>-0\<close> is there).
\<close>

datatype jsint = NaNInt | InfinityInt bool | Integer bool nat

text \<open>
  \<open>Math.round(x)\<close>: the integer nearest to \<open>x\<close>, the one towards plus infinity when two
  are equally near; a negative \<open>x\<close> of at least \<open>-0.5\<close> gives \<open>-0\<close>.
\<close>

fun Math_round :: "jsnum \<Rightarrow> jsint" where
  "Math_round NaN = NaNInt"
| "Math_round (Infinity s) = InfinityInt s"
| "Math_round (Finite s m e) =
     (if 0 \<le> e then Integer s (m * 2 ^ nat e)
      else let k = nat (- e) in
        if s then Integer s ((2 * m + 2 ^ k - 1) div 2 ^ Suc k)
        else Integer s ((2 * m + 2 ^ k) div 2 ^ Suc k))"

text \<open>Whether a Number has the value of the natural number \<open>v\<close>.\<close>

fun hasValue :: "jsnum \<Rightarrow> nat \<Rightarrow> bool" where
  "hasValue (Finite s n t) v = (\<not> s \<and> n * 2 ^ nat t = v * 2 ^ nat (- t))"
| "hasValue x v = False"

text \<open>
  The digits \<open>Number.prototype.toString\<close> prints for the integral binary64 value \<open>v\<close>:
  the decimal number with the fewest significant digits that still rounds to \<open>v\<close>,
  the nearest to \<open>v\<close> among those (the even one on a tie), as a natural number. With
  \<open>k\<close> significant digits the two candidates are the multiples of \<open>10\<^sup>j\<close> around \<open>v\<close>.
\<close>

definition candidates :: "nat \<Rightarrow> nat \<Rightarrow> nat list" where
  "candidates v k =
     (let j = length (decimal v) - k;
          lo = v div 10 ^ j * 10 ^ j;
          hi = lo + 10 ^ j;
          both = (if v - lo < hi - v \<or> (v - lo = hi - v \<and> even (v div 10 ^ j))
                  then [lo, hi] else [hi, lo])
      in filter (\<lambda>c. hasValue (roundToDouble False c 1) v) both)"

definition shortest :: "nat \<Rightarrow> nat" where
  "shortest v =
     (case concat (map (candidates v) [1 ..< 18]) of
        [] \<Rightarrow> v
      | c # cs \<Rightarrow> c)"

text \<open>
  Scientific notation of a natural number of more than 21 digits: the first
  significant digit, a point and the others when there are any, \<open>e+\<close> and the exponent.
\<close>

definition exponential :: "nat \<Rightarrow> jsstring" where
  "exponential c =
     (let ds = decimal c;
          sig = rev (dropWhile (\<lambda>d. d = 48) (rev ds))
      in take 1 sig @ (if length sig \<le> 1 then [] else 46 # drop 1 sig)
         @ js ''e+'' @ decimal (length ds - 1))"

text \<open>
  \<open>x.toString()\<close> for an integral Number. Every integer below \<open>2\<^sup>5\<^sup>3\<close> is a binary64
  value of its own and prints in full; a larger one prints its shortest digits, in
  scientific notation from \<open>10\<^sup>2\<^sup>1\<close> on.
\<close>

fun Number_toString :: "jsint \<Rightarrow> jsstring" where
  "Number_toString NaNInt = js ''NaN''"
| "Number_toString (InfinityInt s) = (if s then js ''-Infinity'' else js ''Infinity'')"
| "Number_toString (Integer s v) =
     (if v = 0 then js ''0''
      else (if s then js ''-'' else []) @
        (if v < 2 ^ 53 then decimal v
         else let c = shortest v in
           if c < 10 ^ 21 then decimal c else exponential c))"

text \<open>The value of a sequence of decimal digits.\<close>

definition digitsValue :: "jsstring \<Rightarrow> nat" where
  "digitsValue ds = foldl (\<lambda>a d. 10 * a + (d - 48)) 0 ds"

text \<open>
  \<open>parseInt(s, 10)\<close>: leading white space is skipped, one sign is read, then the longest
  run of decimal digits; no digit gives \<open>NaN\<close>; the value is rounded to binary64.
\<close>

definition parseInt :: "jsstring \<Rightarrow> jsnum" where
  "parseInt s =
     (let s1 = dropWhile isWhiteSpace s;
          neg = (case s1 of [] \<Rightarrow> False | c # cs \<Rightarrow> c = 45);
          s2 = (case s1 of [] \<Rightarrow> [] | c # cs \<Rightarrow> if c = 45 \<or> c = 43 then cs else s1);
          ds = takeWhile isDigit s2
      in if ds = [] then NaN
         else if digitsValue ds = 0 then Finite neg 0 0
         else roundToDouble neg (digitsValue ds) 1)"

section \<open>The converter\<close>

text \<open>An \<open>Error\<close> object, with its message.\<close>

datatype error = Error (message: jsstring)

text \<open>\<open>framesToMilliseconds\<close>: \<open>Math.round((frames / fps) * 1000)\<close>.\<close>

definition framesToMilliseconds :: "jsnum \<Rightarrow> jsnum \<Rightarrow> jsint" where
  "framesToMilliseconds frames fps =
     Math_round (multiply (divide frames fps) (Finite False 1000 0))"

text \<open>
  \<open>convertTimecode\<close>: the timecode is split at every semicolon and colon; anything but
  four parts throws.
\<close>

definition convertTimecode :: "jsstring \<Rightarrow> jsnum \<Rightarrow> error + jsstring" where
  "convertTimecode timecode fps =
     (let parts = split isSeparator timecode in
      if length parts \<noteq> 4
      then Inl (Error (js ''Invalid timecode format: '' @ timecode))
      else
        let hours = padStart 2 (parts ! 0);
            minutes = padStart 2 (parts ! 1);
            seconds = padStart 2 (parts ! 2);
            frames = parseInt (parts ! 3);
            milliseconds = framesToMilliseconds frames fps;
            msString = padStart 3 (Number_toString milliseconds)
        in Inr (hours @ js '':'' @ minutes @ js '':'' @ seconds @ js '','' @ msString))"

section \<open>The timecode pattern\<close>

text \<open>
  The regular expression of \<open>parseAndConvert\<close>,
  \<^verbatim>\<open>(\d{1,2}[;:]\d{1,2}[;:]\d{1,2}[;:]\d{1,2})\s*[-\<endash>\<emdash>]\s*(\d{1,2}[;:]\d{1,2}[;:]\d{1,2}[;:]\d{1,2})\<close>
  where \<open>\<endash>\<close> is the en dash and \<open>\<emdash>\<close> the em dash, is built from four character
  classes, the greedy quantifiers \<open>{lo,hi}\<close> and \<open>*\<close> on a class, and sequencing.
\<close>

datatype charclass = Digit | Space | Separator | Dash

fun matches :: "charclass \<Rightarrow> nat \<Rightarrow> bool" where
  "matches Digit c = isDigit c"
| "matches Space c = isWhiteSpace c"
| "matches Separator c = isSeparator c"
| "matches Dash c = isDash c"

datatype regex =
    One charclass
  | Between nat nat charclass
  | Many charclass
  | Then regex regex

text \<open>
  A backtracking matcher: the inputs left after each way of matching \<open>r\<close> at the start
  of \<open>s\<close>, in the order in which a backtracking engine tries them. A greedy quantifier
  tries the longest run first.
\<close>

fun backtrack :: "regex \<Rightarrow> jsstring \<Rightarrow> jsstring list" where
  "backtrack (One cl) s =
     (case s of [] \<Rightarrow> [] | c # cs \<Rightarrow> if matches cl c then [cs] else [])"
| "backtrack (Between lo hi cl) s =
     (let k = min hi (length (takeWhile (matches cl) s))
      in map (\<lambda>j. drop j s) (rev [lo ..< Suc k]))"
| "backtrack (Many cl) s =
     (let k = length (takeWhile (matches cl) s)
      in map (\<lambda>j. drop j s) (rev [0 ..< Suc k]))"
| "backtrack (Then r1 r2) s = concat (map (backtrack r2) (backtrack r1 s))"

text \<open>\<open>\d{1,2}[;:]\d{1,2}[;:]\d{1,2}[;:]\d{1,2}\<close>, the content of either group.\<close>

definition timecode :: regex where
  "timecode =
     Then (Between 1 2 Digit) (Then (One Separator)
    (Then (Between 1 2 Digit) (Then (One Separator)
    (Then (Between 1 2 Digit) (Then (One Separator)
    (Between 1 2 Digit))))))"

text \<open>The part between the groups: white space, one dash, white space.\<close>

definition dash :: regex where
  "dash = Then (Many Space) (Then (One Dash) (Many Space))"

text \<open>What is consumed between the input \<open>s\<close> and the input \<open>rest\<close> left of it.\<close>

definition consumed :: "jsstring \<Rightarrow> jsstring \<Rightarrow> jsstring" where
  "consumed s rest = take (length s - length rest) s"

text \<open>
  The result of \<open>line.match(timecodePattern)\<close>: where the match starts, the matched
  text \<open>match[0]\<close> and the two groups \<open>match[1]\<close> and \<open>match[2]\<close>.
\<close>

record regmatch =
  index :: nat
  match0 :: jsstring
  match1 :: jsstring
  match2 :: jsstring

text \<open>
  Every way of matching the whole pattern at the start of \<open>s\<close>, in the engine's order:
  the first group, the dash, the second group.
\<close>

definition attempt :: "jsstring \<Rightarrow> (jsstring \<times> jsstring \<times> jsstring) list" where
  "attempt s =
     concat (map (\<lambda>s1.
       concat (map (\<lambda>s2.
         map (\<lambda>s3. (consumed s s3, consumed s s1, consumed s2 s3))
           (backtrack timecode s2))
         (backtrack dash s1)))
       (backtrack timecode s))"

text \<open>The pattern has no flag: the leftmost position with a match wins.\<close>

fun search :: "nat \<Rightarrow> jsstring \<Rightarrow> regmatch option" where
  "search i s =
     (case attempt s of
        (m0, m1, m2) # ms \<Rightarrow> Some \<lparr>index = i, match0 = m0, match1 = m1, match2 = m2\<rparr>
      | [] \<Rightarrow> (case s of [] \<Rightarrow> None | c # cs \<Rightarrow> search (Suc i) cs))"

declare search.simps [simp del]

definition timecodePattern :: "jsstring \<Rightarrow> regmatch option" where
  "timecodePattern line = search 0 line"

section \<open>Parsing a transcript\<close>

text \<open>
  A subtitle object: \<open>startTime\<close> and \<open>endTime\<close> from its creation, the property \<open>text\<close>
  only once it is saved.
\<close>

record subtitle =
  startTime :: jsstring
  endTime :: jsstring
  text' :: "jsstring option"

text \<open>The three variables of the loop of \<open>parseAndConvert\<close>.\<close>

record parser =
  subtitles :: "subtitle list"
  currentSubtitle :: "subtitle option"
  subtitleText :: "jsstring list"

text \<open>
  The body of the loop, for the line \<open>lines[i]\<close>: an empty line saves the current
  subtitle, a line with a timecode pair saves it and starts the next one, any other line
  is text of the current subtitle. An error of \<open>convertTimecode\<close> is thrown again with
  the line number.
\<close>

definition step :: "jsnum \<Rightarrow> nat \<Rightarrow> jsstring \<Rightarrow> parser \<Rightarrow> error + parser" where
  "step fps i rawLine p =
     (let line = trim rawLine in
      if line = [] then
        (case currentSubtitle p of
           None \<Rightarrow> Inr p
         | Some cur \<Rightarrow>
             if subtitleText p \<noteq> []
             then Inr (p\<lparr>subtitles := subtitles p @ [cur\<lparr>text' := Some (join (subtitleText p))\<rparr>],
                        currentSubtitle := None,
                        subtitleText := []\<rparr>)
             else Inr p)
      else
        (case timecodePattern line of
           Some m \<Rightarrow>
             (let p1 = (case currentSubtitle p of
                          None \<Rightarrow> p
                        | Some cur \<Rightarrow>
                            if subtitleText p \<noteq> []
                            then p\<lparr>subtitles :=
                                     subtitles p @ [cur\<lparr>text' := Some (join (subtitleText p))\<rparr>],
                                   subtitleText := []\<rparr>
                            else p);
                  rethrow = (\<lambda>e. Error (js ''Error parsing timecode on line '' @ decimal (i + 1)
                                          @ js '': '' @ message e))
              in case convertTimecode (match1 m) fps of
                   Inl e \<Rightarrow> Inl (rethrow e)
                 | Inr start \<Rightarrow>
                     (case convertTimecode (match2 m) fps of
                        Inl e \<Rightarrow> Inl (rethrow e)
                      | Inr stop \<Rightarrow>
                          (let p2 = p1\<lparr>currentSubtitle :=
                                         Some \<lparr>startTime = start, endTime = stop, text' = None\<rparr>\<rparr>;
                               afterTimecode =
                                 trim (substring line
                                   (indexOf line (match2 m) + int (length (match2 m))))
                           in if afterTimecode \<noteq> []
                              then Inr (p2\<lparr>subtitleText := subtitleText p2 @ [afterTimecode]\<rparr>)
                              else Inr p2)))
         | None \<Rightarrow>
             (case currentSubtitle p of
                None \<Rightarrow> Inr p
              | Some cur \<Rightarrow> Inr (p\<lparr>subtitleText := subtitleText p @ [line]\<rparr>))))"

text \<open>The loop over the lines, from the index \<open>i\<close> on; a thrown error ends it.\<close>

fun loop :: "jsnum \<Rightarrow> nat \<Rightarrow> jsstring list \<Rightarrow> parser \<Rightarrow> error + parser" where
  "loop fps i [] p = Inr p"
| "loop fps i (l # ls) p =
     (case step fps i l p of
        Inl e \<Rightarrow> Inl e
      | Inr p' \<Rightarrow> loop fps (Suc i) ls p')"

text \<open>After the loop the last subtitle is saved when it has text.\<close>

definition finalize :: "parser \<Rightarrow> subtitle list" where
  "finalize p =
     (case currentSubtitle p of
        None \<Rightarrow> subtitles p
      | Some cur \<Rightarrow>
          if subtitleText p \<noteq> []
          then subtitles p @ [cur\<lparr>text' := Some (join (subtitleText p))\<rparr>]
          else subtitles p)"

text \<open>The first part of \<open>parseAndConvert\<close>: the list \<open>subtitles\<close> after the scan.\<close>

definition collect :: "jsstring \<Rightarrow> jsnum \<Rightarrow> error + subtitle list" where
  "collect input fps =
     (case loop fps 0 (split isNewline (trim input))
             \<lparr>subtitles = [], currentSubtitle = None, subtitleText = []\<rparr> of
        Inl e \<Rightarrow> Inl e
      | Inr p \<Rightarrow> Inr (finalize p))"

text \<open>
  The \<open>forEach\<close> that builds \<open>srtOutput\<close>, from the position \<open>idx\<close> on. A subtitle
  without the property \<open>text\<close> would print \<open>undefined\<close>.
\<close>

fun emit :: "nat \<Rightarrow> subtitle list \<Rightarrow> jsstring" where
  "emit idx [] = []"
| "emit idx (sub # subs) =
     decimal (idx + 1) @ [10]
     @ startTime sub @ js '' --> '' @ endTime sub @ [10]
     @ (case text' sub of None \<Rightarrow> js ''undefined'' | Some t \<Rightarrow> t) @ [10]
     @ [10]
     @ emit (Suc idx) subs"

definition parseAndConvert :: "jsstring \<Rightarrow> jsnum \<Rightarrow> error + jsstring" where
  "parseAndConvert input fps =
     (case collect input fps of
        Inl e \<Rightarrow> Inl e
      | Inr subs \<Rightarrow>
          if length subs = 0
          then Inl (Error (js ''No valid timecodes found in the input. Please check the format.''))
          else Inr (trim (emit 0 subs)))"

section \<open>The conversion of the page\<close>

text \<open>
  The elements of the page that \<open>convertToSRT\<close> reads and writes: the values of the
  two text areas, and the text and the class of the status message.
\<close>

record page =
  inputText :: jsstring
  outputText :: jsstring
  statusMessage_textContent :: jsstring
  statusMessage_className :: jsstring

definition showStatus :: "jsstring \<Rightarrow> jsstring \<Rightarrow> page \<Rightarrow> page" where
  "showStatus msg type pg =
     pg\<lparr>statusMessage_textContent := msg,
        statusMessage_className := js ''status-message '' @ type\<rparr>"

text \<open>\<open>s.split('\n\n')\<close>: the parts between two line feeds in a row.\<close>

fun splitBlank :: "jsstring \<Rightarrow> jsstring list" where
  "splitBlank [] = [[]]"
| "splitBlank (c # cs) =
     (if c = 10 \<and> take 1 cs = [10] then [] # splitBlank (drop 1 cs)
      else (case splitBlank cs of
              [] \<Rightarrow> [[c]]
            | part # parts \<Rightarrow> (c # part) # parts))"

text \<open>
  \<open>convertToSRT\<close>, the handler of the button. The page that declares the frame rates
  is not part of the sources, so \<open>fps\<close> stands for \<open>parseFloat(frameRate.value)\<close>.
\<close>

definition convertToSRT :: "jsnum \<Rightarrow> page \<Rightarrow> page" where
  "convertToSRT fps pg =
     (let input = trim (inputText pg) in
      if input = []
      then showStatus (js ''Please enter or upload a transcript to convert.'') (js ''error'') pg
      else
        (case parseAndConvert input fps of
           Inr srtOutput \<Rightarrow>
             showStatus
               (js ''Successfully converted! Found '' @ decimal (length (splitBlank srtOutput))
                @ js '' subtitle entries.'')
               (js ''success'')
               (pg\<lparr>outputText := srtOutput\<rparr>)
         | Inl e \<Rightarrow>
             (showStatus (message e) (js ''error'') pg)\<lparr>outputText := []\<rparr>))"

section \<open>The language of the pattern\<close>

text \<open>
  What the pattern means, apart from the order in which the matcher tries things: the
  strings that a regular expression matches as a whole.
\<close>

fun lang :: "regex \<Rightarrow> jsstring \<Rightarrow> bool" where
  "lang (One cl) w = (\<exists>c. w = [c] \<and> matches cl c)"
| "lang (Between lo hi cl) w = (lo \<le> length w \<and> length w \<le> hi \<and> (\<forall>c \<in> set w. matches cl c))"
| "lang (Many cl) w = (\<forall>c \<in> set w. matches cl c)"
| "lang (Then r1 r2) w = (\<exists>u v. w = u @ v \<and> lang r1 u \<and> lang r2 v)"

section \<open>Timecodes that differ in their separators only\<close>

text \<open>
  Two strings are the same up to separators when they have the same length and differ
  only where both have a semicolon or a colon. The relation is lifted to the three
  strings of a match attempt and to the result of a match.
\<close>

definition sameUpToSeparators :: "jsstring \<Rightarrow> jsstring \<Rightarrow> bool" where
  "sameUpToSeparators s s' =
     list_all2 (\<lambda>c c'. c = c' \<or> (isSeparator c \<and> isSeparator c')) s s'"

definition sameGroups ::
  "jsstring \<times> jsstring \<times> jsstring \<Rightarrow> jsstring \<times> jsstring \<times> jsstring \<Rightarrow> bool" where
  "sameGroups a b =
     (sameUpToSeparators (fst a) (fst b)
      \<and> sameUpToSeparators (fst (snd a)) (fst (snd b))
      \<and> sameUpToSeparators (snd (snd a)) (snd (snd b)))"

definition sameMatch :: "regmatch \<Rightarrow> regmatch \<Rightarrow> bool" where
  "sameMatch m m' =
     (index m = index m'
      \<and> sameUpToSeparators (match0 m) (match0 m')
      \<and> sameUpToSeparators (match1 m) (match1 m')
      \<and> sameUpToSeparators (match2 m) (match2 m'))"

section \<open>Properties of the cues\<close>

text \<open>
  A subtitle is timed when its two timestamps split at the semicolons and colons into
  three parts, as \<open>HH:MM:SS,mmm\<close> does, and worded when it has the property \<open>text\<close> and
  the text is not empty. The state of the loop is in order when the saved subtitles are
  timed and worded, the current subtitle is timed and no collected line is empty.
\<close>

definition timed :: "subtitle \<Rightarrow> bool" where
  "timed sub \<longleftrightarrow>
     length (split isSeparator (startTime sub)) = 3
     \<and> length (split isSeparator (endTime sub)) = 3"

definition worded :: "subtitle \<Rightarrow> bool" where
  "worded sub \<longleftrightarrow> (case text' sub of None \<Rightarrow> False | Some t \<Rightarrow> t \<noteq> [])"

definition inOrder :: "parser \<Rightarrow> bool" where
  "inOrder p \<longleftrightarrow>
     list_all timed (subtitles p) \<and> list_all worded (subtitles p)
     \<and> (case currentSubtitle p of None \<Rightarrow> True | Some cur \<Rightarrow> timed cur)
     \<and> list_all (\<lambda>l. l \<noteq> []) (subtitleText p)"

section \<open>Splitting\<close>

lemma split_not_Nil [simp]: "split P s \<noteq> []"
  by (induction s) (auto split: list.splits)

lemma split_none: "\<forall>c \<in> set a. \<not> P c \<Longrightarrow> split P a = [a]"
  by (induction a) auto

lemma split_append: "\<forall>c \<in> set a. \<not> P c \<Longrightarrow> P x \<Longrightarrow> split P (a @ x # b) = a # split P b"
  by (induction a) (auto split: list.splits)

lemma split_parts: "part \<in> set (split P s) \<Longrightarrow> c \<in> set part \<Longrightarrow> \<not> P c"
  by (induction s arbitrary: part) (fastforce split: if_splits list.splits)+

section \<open>The matcher finds exactly the language\<close>

lemma take_takeWhile_all:
  assumes "j \<le> length (takeWhile Q s)"
  shows "\<forall>c \<in> set (take j s). Q c"
proof -
  have "s = takeWhile Q s @ dropWhile Q s" by simp
  then have "take j s = take j (takeWhile Q s)"
    using assms by (metis append_Nil2 diff_is_0_eq take_0 take_append)
  then show ?thesis
    by (metis in_set_takeD set_takeWhileD)
qed

lemma backtrack_Between:
  "set (backtrack (Between lo hi cl) s) =
     (\<lambda>j. drop j s) ` {j. lo \<le> j \<and> j \<le> hi \<and> j \<le> length (takeWhile (matches cl) s)}"
proof -
  define K where "K = min hi (length (takeWhile (matches cl) s))"
  have "{lo ..< Suc K} = {j. lo \<le> j \<and> j \<le> hi \<and> j \<le> length (takeWhile (matches cl) s)}"
    unfolding K_def by auto
  moreover have "set (backtrack (Between lo hi cl) s) = (\<lambda>j. drop j s) ` {lo ..< Suc K}"
    unfolding K_def by (simp only: backtrack.simps Let_def set_map set_rev set_upt)
  ultimately show ?thesis by simp
qed

lemma backtrack_Many:
  "set (backtrack (Many cl) s) =
     (\<lambda>j. drop j s) ` {j. j \<le> length (takeWhile (matches cl) s)}"
proof -
  define K where "K = length (takeWhile (matches cl) s)"
  have "{0 ..< Suc K} = {j. j \<le> length (takeWhile (matches cl) s)}"
    unfolding K_def by auto
  moreover have "set (backtrack (Many cl) s) = (\<lambda>j. drop j s) ` {0 ..< Suc K}"
    unfolding K_def by (simp only: backtrack.simps Let_def set_map set_rev set_upt)
  ultimately show ?thesis by simp
qed

lemma backtrack_sound:
  "rest \<in> set (backtrack r s) \<Longrightarrow> \<exists>w. s = w @ rest \<and> lang r w"
proof (induction r arbitrary: s rest)
  case (One cl)
  then show ?case by (auto split: list.splits if_splits)
next
  case (Between lo hi cl)
  then obtain j where j: "lo \<le> j" "j \<le> hi" "j \<le> length (takeWhile (matches cl) s)" "rest = drop j s"
    unfolding backtrack_Between by blast
  have "j \<le> length s" using j(3) length_takeWhile_le le_trans by blast
  then have "length (take j s) = j" by simp
  moreover have "\<forall>c \<in> set (take j s). matches cl c" using j(3) by (rule take_takeWhile_all)
  moreover have "s = take j s @ rest" using j(4) by simp
  ultimately show ?case using j(1,2) by (metis lang.simps(2))
next
  case (Many cl)
  then obtain j where j: "j \<le> length (takeWhile (matches cl) s)" "rest = drop j s"
    unfolding backtrack_Many by blast
  have "\<forall>c \<in> set (take j s). matches cl c" using j(1) by (rule take_takeWhile_all)
  moreover have "s = take j s @ rest" using j(2) by simp
  ultimately show ?case by (metis lang.simps(3))
next
  case (Then r1 r2)
  then obtain mid where m: "mid \<in> set (backtrack r1 s)" "rest \<in> set (backtrack r2 mid)"
    by auto
  from Then.IH(1)[OF m(1)] obtain u where u: "s = u @ mid" "lang r1 u" by blast
  from Then.IH(2)[OF m(2)] obtain v where v: "mid = v @ rest" "lang r2 v" by blast
  have "s = (u @ v) @ rest" using u v by simp
  moreover have "lang (Then r1 r2) (u @ v)" using u v by auto
  ultimately show ?case by blast
qed

lemma backtrack_complete:
  "lang r w \<Longrightarrow> rest \<in> set (backtrack r (w @ rest))"
proof (induction r arbitrary: w rest)
  case (One cl)
  then show ?case by auto
next
  case (Between lo hi cl)
  then have w: "lo \<le> length w" "length w \<le> hi" "\<forall>c \<in> set w. matches cl c" by auto
  have "takeWhile (matches cl) (w @ rest) = w @ takeWhile (matches cl) rest"
    using w(3) by simp
  then have "length w \<le> length (takeWhile (matches cl) (w @ rest))" by simp
  then have "drop (length w) (w @ rest) \<in> set (backtrack (Between lo hi cl) (w @ rest))"
    unfolding backtrack_Between using w(1,2) by blast
  then show ?case by simp
next
  case (Many cl)
  then have w: "\<forall>c \<in> set w. matches cl c" by auto
  have "takeWhile (matches cl) (w @ rest) = w @ takeWhile (matches cl) rest"
    using w by simp
  then have "length w \<le> length (takeWhile (matches cl) (w @ rest))" by simp
  then have "drop (length w) (w @ rest) \<in> set (backtrack (Many cl) (w @ rest))"
    unfolding backtrack_Many by blast
  then show ?case by simp
next
  case (Then r1 r2)
  then obtain u v where uv: "w = u @ v" "lang r1 u" "lang r2 v" by auto
  have "v @ rest \<in> set (backtrack r1 (u @ v @ rest))" using Then.IH(1)[OF uv(2)] .
  moreover have "rest \<in> set (backtrack r2 (v @ rest))" using Then.IH(2)[OF uv(3)] .
  ultimately show ?case using uv(1) by auto
qed


section \<open>A matched timecode has four parts\<close>

lemma digit_not_separator: "isDigit c \<Longrightarrow> \<not> isSeparator c"
  by (simp add: isDigit_def isSeparator_def)

lemma lang_timecode_split:
  assumes "lang timecode w"
  shows "\<exists>d1 d2 d3 d4. split isSeparator w = [d1, d2, d3, d4]"
proof -
  from assms obtain d1 c1 d2 c2 d3 c3 d4 where
    w: "w = d1 @ c1 # d2 @ c2 # d3 @ c3 # d4" and
    d: "\<forall>c \<in> set d1. isDigit c" "\<forall>c \<in> set d2. isDigit c"
       "\<forall>c \<in> set d3. isDigit c" "\<forall>c \<in> set d4. isDigit c" and
    c: "isSeparator c1" "isSeparator c2" "isSeparator c3"
    unfolding timecode_def by auto
  have n: "\<forall>c \<in> set d1. \<not> isSeparator c" "\<forall>c \<in> set d2. \<not> isSeparator c"
       "\<forall>c \<in> set d3. \<not> isSeparator c" "\<forall>c \<in> set d4. \<not> isSeparator c"
    using d digit_not_separator by blast+
  have "split isSeparator w = [d1, d2, d3, d4]"
    unfolding w
    by (simp add: split_append[OF n(1) c(1)] split_append[OF n(2) c(2)]
        split_append[OF n(3) c(3)] split_none[OF n(4)])
  then show ?thesis by blast
qed

lemma consumed_append: "consumed (w @ rest) rest = w"
  by (simp add: consumed_def)

lemma attempt_sound:
  assumes "(m0, m1, m2) \<in> set (attempt s)"
  shows "lang timecode m1 \<and> lang timecode m2
         \<and> (\<exists>g rest. lang dash g \<and> m0 = m1 @ g @ m2 \<and> s = m0 @ rest)"
proof -
  from assms obtain s1 s2 s3 where
    b: "s1 \<in> set (backtrack timecode s)" "s2 \<in> set (backtrack dash s1)"
       "s3 \<in> set (backtrack timecode s2)" and
    m: "m0 = consumed s s3" "m1 = consumed s s1" "m2 = consumed s2 s3"
    unfolding attempt_def by auto
  from backtrack_sound[OF b(1)] obtain w1 where w1: "s = w1 @ s1" "lang timecode w1" by blast
  from backtrack_sound[OF b(2)] obtain g where g: "s1 = g @ s2" "lang dash g" by blast
  from backtrack_sound[OF b(3)] obtain w2 where w2: "s2 = w2 @ s3" "lang timecode w2" by blast
  have "m1 = w1" using m(2) w1(1) consumed_append by simp
  moreover have "m2 = w2" using m(3) w2(1) consumed_append by simp
  moreover have "s = (w1 @ g @ w2) @ s3" using w1(1) g(1) w2(1) by simp
  then have "m0 = w1 @ g @ w2" using m(1) consumed_append by metis
  ultimately show ?thesis using w1(2) w2(2) g(2) \<open>s = (w1 @ g @ w2) @ s3\<close> by blast
qed

lemma attempt_complete:
  assumes "lang timecode w1" "lang dash g" "lang timecode w2"
  shows "attempt (w1 @ g @ w2 @ rest) \<noteq> []"
proof -
  have "g @ w2 @ rest \<in> set (backtrack timecode (w1 @ g @ w2 @ rest))"
    using backtrack_complete[OF assms(1)] .
  moreover have "w2 @ rest \<in> set (backtrack dash (g @ w2 @ rest))"
    using backtrack_complete[OF assms(2)] .
  moreover have "rest \<in> set (backtrack timecode (w2 @ rest))"
    using backtrack_complete[OF assms(3)] .
  ultimately have "(consumed (w1 @ g @ w2 @ rest) rest, consumed (w1 @ g @ w2 @ rest) (g @ w2 @ rest),
      consumed (w2 @ rest) rest) \<in> set (attempt (w1 @ g @ w2 @ rest))"
    unfolding attempt_def by auto
  then show ?thesis by auto
qed

lemma search_sound:
  "search i s = Some m \<Longrightarrow>
     \<exists>pre. (match0 m, match1 m, match2 m) \<in> set (attempt (drop (length pre) s))
       \<and> pre = take (length pre) s \<and> length pre \<le> length s \<and> index m = i + length pre"
proof (induction s arbitrary: i)
  case Nil
  then show ?case by (auto simp: search.simps split: list.splits)
next
  case (Cons c cs)
  show ?case
  proof (cases "attempt (c # cs)")
    case Nil
    with Cons.prems have "search (Suc i) cs = Some m" by (simp add: search.simps)
    from Cons.IH[OF this] obtain pre where
      p: "(match0 m, match1 m, match2 m) \<in> set (attempt (drop (length pre) cs))"
         "pre = take (length pre) cs" "length pre \<le> length cs" "index m = Suc i + length pre"
      by blast
    have "(match0 m, match1 m, match2 m) \<in> set (attempt (drop (length (c # pre)) (c # cs)))"
      using p(1) by simp
    moreover have "c # pre = take (length (c # pre)) (c # cs)" using p(2) by simp
    moreover have "length (c # pre) \<le> length (c # cs)" using p(3) by simp
    moreover have "index m = i + length (c # pre)" using p(4) by simp
    ultimately show ?thesis by blast
  next
    case (Cons a as)
    with Cons.prems have "(match0 m, match1 m, match2 m) \<in> set (attempt (drop (length ([]::jsstring)) (c # cs)))"
      by (auto simp: search.simps split: prod.splits)
    moreover have "index m = i + length ([]::jsstring)"
      using Cons Cons.prems by (auto simp: search.simps split: prod.splits)
    ultimately show ?thesis by (metis list.size(3) take_0 le0)
  qed
qed

lemma search_complete:
  "attempt (drop k s) \<noteq> [] \<Longrightarrow> k \<le> length s \<Longrightarrow> search i s \<noteq> None"
proof (induction s arbitrary: i k)
  case Nil
  then show ?case by (auto simp: search.simps split: list.splits)
next
  case (Cons c cs)
  show ?case
  proof (cases "attempt (c # cs)")
    case Nil
    with Cons.prems have "k \<noteq> 0" by (cases k) auto
    then obtain k' where k': "k = Suc k'" by (cases k) auto
    with Cons.prems have "attempt (drop k' cs) \<noteq> []" "k' \<le> length cs" by auto
    from Cons.IH[OF this] have "search (Suc i) cs \<noteq> None" .
    with Nil show ?thesis by (simp add: search.simps)
  next
    case (Cons a as)
    then show ?thesis by (auto simp: search.simps split: prod.splits)
  qed
qed

lemma timecodePattern_groups:
  assumes "timecodePattern line = Some m"
  shows "lang timecode (match1 m) \<and> lang timecode (match2 m)"
  using search_sound[OF assms[unfolded timecodePattern_def]] attempt_sound by blast

section \<open>The scan never throws\<close>

lemma convertTimecode_four:
  assumes "split isSeparator tc = [h, m, s, f]"
  shows "convertTimecode tc fps =
    Inr (padStart 2 h @ js '':'' @ padStart 2 m @ js '':'' @ padStart 2 s @ js '',''
         @ padStart 3 (Number_toString (framesToMilliseconds (parseInt f) fps)))"
  unfolding convertTimecode_def by (simp add: assms Let_def)

lemma timecodePattern_convert:
  assumes "timecodePattern line = Some m"
  shows "\<exists>a b. convertTimecode (match1 m) fps = Inr a \<and> convertTimecode (match2 m) fps = Inr b"
  using timecodePattern_groups[OF assms] lang_timecode_split convertTimecode_four
  by metis

lemma step_total: "\<exists>p'. step fps i l p = Inr p'"
proof (cases "timecodePattern (trim l)")
  case None
  then show ?thesis by (simp add: step_def Let_def split: option.splits)
next
  case (Some m)
  from timecodePattern_convert[OF this, of fps] obtain a b where
    "convertTimecode (match1 m) fps = Inr a" "convertTimecode (match2 m) fps = Inr b" by blast
  then show ?thesis using Some by (simp add: step_def Let_def split: option.splits)
qed

lemma loop_total: "\<exists>p'. loop fps i ls p = Inr p'"
proof (induction ls arbitrary: i p)
  case Nil
  then show ?case by simp
next
  case (Cons l ls)
  obtain p1 where "step fps i l p = Inr p1" using step_total by blast
  then show ?case using Cons.IH by simp
qed

lemma collect_total: "\<exists>subs. collect input fps = Inr subs"
  unfolding collect_def using loop_total
  by (metis (no_types, lifting) sum.case(2))

text \<open>Unfolding the character classes and the matcher on a concrete line.\<close>

lemmas chars = js_def isDigit_def isSeparator_def isWhiteSpace_def isDash_def isNewline_def

lemmas pattern =
  timecodePattern_def search.simps attempt_def timecode_def dash_def consumed_def Let_def

text \<open>
  Claim C10. Whatever the pattern captures as its first or second group splits at the
  semicolons and colons into exactly four parts. So \<open>convertTimecode\<close> returns a
  timestamp for either group, and the body of the loop, which reaches
  \<open>convertTimecode\<close> only with these groups, never takes the branch that throws
  \<open>Invalid timecode format\<close>.
\<close>

theorem matched_timecode_has_four_parts:
  assumes "timecodePattern line = Some m"
  shows "length (split isSeparator (match1 m)) = 4
       \<and> length (split isSeparator (match2 m)) = 4
       \<and> (\<exists>a. convertTimecode (match1 m) fps = Inr a)
       \<and> (\<exists>b. convertTimecode (match2 m) fps = Inr b)
       \<and> (\<exists>p'. step fps i line p = Inr p')"
proof -
  from timecodePattern_groups[OF assms] lang_timecode_split
  obtain a1 a2 a3 a4 b1 b2 b3 b4 where
    "split isSeparator (match1 m) = [a1, a2, a3, a4]"
    "split isSeparator (match2 m) = [b1, b2, b3, b4]" by metis
  then show ?thesis
    using step_total[of fps i line p] by (simp add: convertTimecode_four)
qed

theorem matched_timecode_has_four_parts_witness:
  "timecodePattern (js ''00;00;03;15 - 00;00;06;20'') =
     Some \<lparr>index = 0, match0 = js ''00;00;03;15 - 00;00;06;20'',
           match1 = js ''00;00;03;15'', match2 = js ''00;00;06;20''\<rparr>
   \<and> (length (split isSeparator (match1
          \<lparr>index = 0, match0 = js ''00;00;03;15 - 00;00;06;20'',
           match1 = js ''00;00;03;15'', match2 = js ''00;00;06;20''\<rparr>)) = 4
       \<and> length (split isSeparator (match2
          \<lparr>index = 0, match0 = js ''00;00;03;15 - 00;00;06;20'',
           match1 = js ''00;00;03;15'', match2 = js ''00;00;06;20''\<rparr>)) = 4
       \<and> (\<exists>a. convertTimecode (match1
          \<lparr>index = 0, match0 = js ''00;00;03;15 - 00;00;06;20'',
           match1 = js ''00;00;03;15'', match2 = js ''00;00;06;20''\<rparr>) (Finite False 24 0) = Inr a)
       \<and> (\<exists>b. convertTimecode (match2
          \<lparr>index = 0, match0 = js ''00;00;03;15 - 00;00;06;20'',
           match1 = js ''00;00;03;15'', match2 = js ''00;00;06;20''\<rparr>) (Finite False 24 0) = Inr b)
       \<and> (\<exists>p'. step (Finite False 24 0) 0 (js ''00;00;03;15 - 00;00;06;20'')
            \<lparr>subtitles = [], currentSubtitle = None, subtitleText = []\<rparr> = Inr p'))"
proof -
  have h: "timecodePattern (js ''00;00;03;15 - 00;00;06;20'') =
     Some \<lparr>index = 0, match0 = js ''00;00;03;15 - 00;00;06;20'',
           match1 = js ''00;00;03;15'', match2 = js ''00;00;06;20''\<rparr>"
    by (simp add: chars pattern)
  from h matched_timecode_has_four_parts[OF h] show ?thesis by (rule conjI)
qed

section \<open>Lines without a timecode pair\<close>

lemma timecodePattern_iff:
  "timecodePattern l \<noteq> None \<longleftrightarrow>
     (\<exists>pre w1 g w2 post. l = pre @ w1 @ g @ w2 @ post
        \<and> lang timecode w1 \<and> lang dash g \<and> lang timecode w2)"
proof
  assume "timecodePattern l \<noteq> None"
  then obtain m where m: "search 0 l = Some m" unfolding timecodePattern_def by blast
  from search_sound[OF m] obtain pre where
    p: "(match0 m, match1 m, match2 m) \<in> set (attempt (drop (length pre) l))"
       "pre = take (length pre) l" by blast
  from attempt_sound[OF p(1)] obtain g rest where
    a: "lang timecode (match1 m)" "lang timecode (match2 m)" "lang dash g"
       "match0 m = match1 m @ g @ match2 m" "drop (length pre) l = match0 m @ rest" by blast
  have "l = pre @ drop (length pre) l" using p(2) by (metis append_take_drop_id)
  then have "l = pre @ match1 m @ g @ match2 m @ rest" using a(4,5) by simp
  then show "\<exists>pre w1 g w2 post. l = pre @ w1 @ g @ w2 @ post
        \<and> lang timecode w1 \<and> lang dash g \<and> lang timecode w2"
    using a(1,2,3) by blast
next
  assume "\<exists>pre w1 g w2 post. l = pre @ w1 @ g @ w2 @ post
        \<and> lang timecode w1 \<and> lang dash g \<and> lang timecode w2"
  then obtain pre w1 g w2 post where
    l: "l = pre @ w1 @ g @ w2 @ post" and
    w: "lang timecode w1" "lang dash g" "lang timecode w2" by blast
  have "attempt (drop (length pre) l) \<noteq> []"
    using attempt_complete[OF w] l by simp
  moreover have "length pre \<le> length l" using l by simp
  ultimately show "timecodePattern l \<noteq> None"
    unfolding timecodePattern_def by (rule search_complete)
qed

lemma timecodePattern_infix:
  assumes "timecodePattern (x @ l @ y) = None"
  shows "timecodePattern l = None"
proof (rule ccontr)
  assume "timecodePattern l \<noteq> None"
  then obtain pre w1 g w2 post where
    l: "l = pre @ w1 @ g @ w2 @ post" and
    w: "lang timecode w1" "lang dash g" "lang timecode w2"
    unfolding timecodePattern_iff by blast
  have "x @ l @ y = (x @ pre) @ w1 @ g @ w2 @ (post @ y)" using l by simp
  then have "timecodePattern (x @ l @ y) \<noteq> None"
    unfolding timecodePattern_iff using w by blast
  then show False using assms by simp
qed

lemma trim_infix: "\<exists>a b. s = a @ trim s @ b"
proof -
  define u where "u = dropWhile isWhiteSpace s"
  have "u = rev (dropWhile isWhiteSpace (rev u)) @ rev (takeWhile isWhiteSpace (rev u))"
    by (metis rev_append rev_rev_ident takeWhile_dropWhile_id)
  then have "u = trim s @ rev (takeWhile isWhiteSpace (rev u))"
    unfolding trim_def u_def .
  moreover have "s = takeWhile isWhiteSpace s @ u" unfolding u_def by simp
  ultimately show ?thesis by metis
qed

lemma split_append_eq:
  "split P (t @ b) =
     butlast (split P t) @ (last (split P t) @ hd (split P b)) # tl (split P b)"
proof (induction t)
  case Nil
  then show ?case by simp
next
  case (Cons c t)
  obtain part parts where sp: "split P t = part # parts" by (cases "split P t") auto
  show ?case
  proof (cases "P c")
    case True
    then show ?thesis using Cons.IH by simp
  next
    case False
    then show ?thesis using Cons.IH sp by (cases parts) auto
  qed
qed

lemma split_line_infix:
  assumes "l \<in> set (split P t)"
  shows "\<exists>l' \<in> set (split P (a @ t @ b)). \<exists>x y. l' = x @ l @ y"
proof -
  have t: "split P t = butlast (split P t) @ [last (split P t)]" by simp
  have "l \<in> set (butlast (split P t)) \<or> l = last (split P t)"
    using assms by (metis t Un_iff set_append empty_iff empty_set set_ConsD)
  then have "\<exists>l1 \<in> set (split P (t @ b)). \<exists>y. l1 = l @ y"
  proof
    assume "l \<in> set (butlast (split P t))"
    then have "l \<in> set (split P (t @ b))" unfolding split_append_eq[of P t b] by simp
    then show ?thesis by (metis append_Nil2)
  next
    assume "l = last (split P t)"
    then have "l @ hd (split P b) \<in> set (split P (t @ b))"
      unfolding split_append_eq[of P t b] by simp
    then show ?thesis by blast
  qed
  then obtain l1 y where l1: "l1 \<in> set (split P (t @ b))" "l1 = l @ y" by blast
  have tb: "split P (t @ b) = hd (split P (t @ b)) # tl (split P (t @ b))" by simp
  have "l1 = hd (split P (t @ b)) \<or> l1 \<in> set (tl (split P (t @ b)))"
    using l1(1) by (metis tb set_ConsD)
  then have "\<exists>l' \<in> set (split P (a @ t @ b)). \<exists>x. l' = x @ l1"
  proof
    assume "l1 = hd (split P (t @ b))"
    then have "last (split P a) @ l1 \<in> set (split P (a @ t @ b))"
      unfolding split_append_eq[of P a "t @ b"] by simp
    then show ?thesis by blast
  next
    assume "l1 \<in> set (tl (split P (t @ b)))"
    then have "l1 \<in> set (split P (a @ t @ b))"
      unfolding split_append_eq[of P a "t @ b"] by simp
    then show ?thesis by (metis append_Nil)
  qed
  then show ?thesis using l1(2) by auto
qed

lemma step_no_match:
  assumes "currentSubtitle p = None" "timecodePattern (trim l) = None"
  shows "step fps i l p = Inr p"
  using assms by (simp add: step_def Let_def)

lemma loop_no_match:
  assumes "currentSubtitle p = None" "\<forall>l \<in> set ls. timecodePattern (trim l) = None"
  shows "loop fps i ls p = Inr p"
  using assms by (induction ls arbitrary: i) (simp_all add: step_no_match)

lemma collect_no_match:
  assumes "\<forall>l \<in> set (split isNewline input). timecodePattern l = None"
  shows "collect input fps = Inr []"
proof -
  obtain a b where ab: "input = a @ trim input @ b" using trim_infix by blast
  have "\<forall>l \<in> set (split isNewline (trim input)). timecodePattern (trim l) = None"
  proof
    fix l assume "l \<in> set (split isNewline (trim input))"
    from split_line_infix[OF this, of a b] obtain l' x y where
      l': "l' \<in> set (split isNewline input)" "l' = x @ l @ y" using ab by metis
    obtain c d where cd: "l = c @ trim l @ d" using trim_infix by blast
    have "l' = (x @ c) @ trim l @ (d @ y)" using l'(2) cd by (metis append_assoc)
    moreover have "timecodePattern l' = None" using assms l'(1) by blast
    ultimately show "timecodePattern (trim l) = None" using timecodePattern_infix by metis
  qed
  then have "loop fps 0 (split isNewline (trim input))
      \<lparr>subtitles = [], currentSubtitle = None, subtitleText = []\<rparr>
     = Inr \<lparr>subtitles = [], currentSubtitle = None, subtitleText = []\<rparr>"
    by (simp add: loop_no_match)
  then show ?thesis by (simp add: collect_def finalize_def)
qed

lemma parseAndConvert_failure:
  assumes "parseAndConvert input fps = Inl e"
  shows "collect input fps = Inr []"
    and "e = Error (js ''No valid timecodes found in the input. Please check the format.'')"
proof -
  obtain subs where subs: "collect input fps = Inr subs" using collect_total by blast
  with assms have "subs = []" by (auto simp: parseAndConvert_def split: if_splits)
  then show "collect input fps = Inr []" using subs by simp
  then show "e = Error (js ''No valid timecodes found in the input. Please check the format.'')"
    using assms by (simp add: parseAndConvert_def)
qed

lemmas strings = trim_def padStart_def indexOf_def substring_def
lemmas parsing = parseAndConvert_def collect_def step_def finalize_def

lemma three_parts_example:
  "parseAndConvert (js ''00;00;03 - 00;00;06;20'') fps =
     Inl (Error (js ''No valid timecodes found in the input. Please check the format.''))"
  by (simp add: chars pattern strings parsing)

lemma plain_text_example:
  "\<forall>l \<in> set (split isNewline (js ''Hello'' @ [10] @ js ''world'')). timecodePattern l = None"
  by (simp add: chars pattern)

lemma messages_differ:
  "js ''Please enter or upload a transcript to convert.''
     \<noteq> js ''No valid timecodes found in the input. Please check the format.''"
  "js ''Please enter or upload a transcript to convert.''
     \<noteq> js ''Error parsing timecode on line '' @ rest"
  "js ''No valid timecodes found in the input. Please check the format.''
     \<noteq> js ''Error parsing timecode on line '' @ rest"
  by (simp_all add: js_def)

text \<open>
  Claim C6. \<open>parseAndConvert\<close> fails with the message \<open>No valid timecodes found\<close>
  exactly when the list \<open>subtitles\<close> is empty after the scan. In particular it fails so
  for every input none of whose lines has a match of the timecode pattern.
\<close>

theorem no_timecodes_found:
  "(parseAndConvert input fps =
      Inl (Error (js ''No valid timecodes found in the input. Please check the format.''))
    \<longleftrightarrow> collect input fps = Inr [])
   \<and> (list_all (\<lambda>l. timecodePattern l = None) (split isNewline input) \<longrightarrow>
        parseAndConvert input fps =
          Inl (Error (js ''No valid timecodes found in the input. Please check the format.'')))"
proof -
  have 1: "collect input fps = Inr [] \<Longrightarrow> parseAndConvert input fps =
      Inl (Error (js ''No valid timecodes found in the input. Please check the format.''))"
    by (simp add: parseAndConvert_def)
  show ?thesis using 1 parseAndConvert_failure(1) collect_no_match
    unfolding list_all_iff by blast
qed

theorem no_timecodes_found_witness:
  "list_all (\<lambda>l. timecodePattern l = None) (split isNewline (js ''Hello'' @ [10] @ js ''world''))
   \<and> parseAndConvert (js ''Hello'' @ [10] @ js ''world'') (Finite False 24 0) =
       Inl (Error (js ''No valid timecodes found in the input. Please check the format.''))
   \<and> collect (js ''Hello'' @ [10] @ js ''world'') (Finite False 24 0) = Inr []"
proof -
  note t = no_timecodes_found[of "js ''Hello'' @ [10] @ js ''world''" "Finite False 24 0"]
  have h: "list_all (\<lambda>l. timecodePattern l = None)
             (split isNewline (js ''Hello'' @ [10] @ js ''world''))"
    using plain_text_example by (simp only: list_all_iff)
  have 1: "parseAndConvert (js ''Hello'' @ [10] @ js ''world'') (Finite False 24 0) =
       Inl (Error (js ''No valid timecodes found in the input. Please check the format.''))"
    using t h by (elim conjE impE)
  have 2: "collect (js ''Hello'' @ [10] @ js ''world'') (Finite False 24 0) = Inr []"
    using t 1 by (elim conjE) (rule iffD1)
  from h 1 2 show ?thesis by (intro conjI)
qed

text \<open>
  Claim C4, as the code has it. The claim expects a timecode of three parts, as in the
  line \<open>00;00;03 - 00;00;06;20\<close>, to fail with an error that names the line. The
  pattern does not match such a line, so the line is handled like any line without a
  timecode pair, and the input made of this line alone fails with
  \<open>No valid timecodes found\<close>.
\<close>

theorem three_part_timecode_is_not_malformed:
  "parseAndConvert (js ''00;00;03 - 00;00;06;20'') (Finite False 24 0) =
     Inl (Error (js ''No valid timecodes found in the input. Please check the format.''))"
  by (rule three_parts_example)

text \<open>
  Claim C4, amended. \<open>parseAndConvert\<close> never fails with the error of a malformed
  timecode: it returns a document or fails with \<open>No valid timecodes found\<close>, and its
  result is never the error \<open>Error parsing timecode on line\<close> of any line and cause.
  The line \<open>00;00;03 - 00;00;06;20\<close>, whose first timecode has three parts, has no
  match of the pattern.
\<close>

theorem convert_never_reports_malformed_timecode:
  "(parseAndConvert input fps =
      Inl (Error (js ''No valid timecodes found in the input. Please check the format.''))
    \<or> (\<exists>doc. parseAndConvert input fps = Inr doc))
   \<and> parseAndConvert input fps \<noteq>
       Inl (Error (js ''Error parsing timecode on line '' @ decimal (i + 1) @ js '': '' @ cause))
   \<and> timecodePattern (js ''00;00;03 - 00;00;06;20'') = None"
proof -
  have none: "timecodePattern (js ''00;00;03 - 00;00;06;20'') = None"
    by (simp add: chars pattern)
  show ?thesis
  proof (cases "parseAndConvert input fps")
    case (Inl e)
    from parseAndConvert_failure(2)[OF Inl] show ?thesis
      using Inl messages_differ(3) none by simp
  next
    case (Inr doc)
    then show ?thesis using none by simp
  qed
qed

theorem convert_never_reports_malformed_timecode_witness:
  "(parseAndConvert (js ''00;00;03 - 00;00;06;20'') (Finite False 24 0) =
      Inl (Error (js ''No valid timecodes found in the input. Please check the format.''))
    \<or> (\<exists>doc. parseAndConvert (js ''00;00;03 - 00;00;06;20'') (Finite False 24 0) = Inr doc))
   \<and> parseAndConvert (js ''00;00;03 - 00;00;06;20'') (Finite False 24 0) \<noteq>
       Inl (Error (js ''Error parsing timecode on line '' @ decimal (0 + 1) @ js '': ''
                   @ js ''Invalid timecode format: 00;00;03''))
   \<and> timecodePattern (js ''00;00;03 - 00;00;06;20'') = None"
  by (rule convert_never_reports_malformed_timecode)

section \<open>An empty input\<close>

lemma trim_blank:
  assumes "\<forall>c \<in> set s. isWhiteSpace c"
  shows "trim s = []"
proof -
  have d: "dropWhile isWhiteSpace s = []" using assms by simp
  show ?thesis unfolding trim_def d by simp
qed

text \<open>
  Claim C5. When the input has no character other than white space, \<open>convertToSRT\<close>
  shows the error \<open>Please enter or upload a transcript to convert.\<close> and changes nothing
  else on the page: the result does not depend on the frame rate and the output is left
  as it was, where a failed parse would clear it. The message is none that
  \<open>parseAndConvert\<close> fails with, and it differs from the two messages of
  \<open>parseAndConvert\<close>.
\<close>

theorem empty_input_reported_before_parsing:
  assumes "list_all isWhiteSpace (inputText pg)"
  shows "convertToSRT fps pg =
           pg\<lparr>statusMessage_textContent := js ''Please enter or upload a transcript to convert.'',
              statusMessage_className := js ''status-message error''\<rparr>
       \<and> parseAndConvert input' fps'
           \<noteq> Inl (Error (js ''Please enter or upload a transcript to convert.''))
       \<and> js ''Please enter or upload a transcript to convert.''
           \<noteq> js ''No valid timecodes found in the input. Please check the format.''
       \<and> js ''Please enter or upload a transcript to convert.''
           \<noteq> js ''Error parsing timecode on line '' @ decimal (i + 1) @ js '': '' @ msg"
proof -
  have "\<forall>c \<in> set (inputText pg). isWhiteSpace c" using assms by (simp add: list_all_iff)
  then have "trim (inputText pg) = []" by (rule trim_blank)
  then have "convertToSRT fps pg =
           pg\<lparr>statusMessage_textContent := js ''Please enter or upload a transcript to convert.'',
              statusMessage_className := js ''status-message error''\<rparr>"
    by (simp add: convertToSRT_def showStatus_def js_def)
  moreover have "parseAndConvert input' fps'
           \<noteq> Inl (Error (js ''Please enter or upload a transcript to convert.''))"
    using parseAndConvert_failure(2) messages_differ(1) by (metis error.inject)
  ultimately show ?thesis using messages_differ(1,2) by blast
qed

theorem empty_input_reported_before_parsing_witness:
  "list_all isWhiteSpace (inputText \<lparr>inputText = js ''  '' @ [10], outputText = js ''old'',
        statusMessage_textContent = [], statusMessage_className = []\<rparr>)
   \<and> (convertToSRT (Finite False 24 0)
         \<lparr>inputText = js ''  '' @ [10], outputText = js ''old'',
          statusMessage_textContent = [], statusMessage_className = []\<rparr> =
           \<lparr>inputText = js ''  '' @ [10], outputText = js ''old'',
            statusMessage_textContent = [], statusMessage_className = []\<rparr>
           \<lparr>statusMessage_textContent := js ''Please enter or upload a transcript to convert.'',
            statusMessage_className := js ''status-message error''\<rparr>
       \<and> parseAndConvert (js ''  '' @ [10]) (Finite False 24 0)
           \<noteq> Inl (Error (js ''Please enter or upload a transcript to convert.''))
       \<and> js ''Please enter or upload a transcript to convert.''
           \<noteq> js ''No valid timecodes found in the input. Please check the format.''
       \<and> js ''Please enter or upload a transcript to convert.''
           \<noteq> js ''Error parsing timecode on line '' @ decimal (0 + 1) @ js '': '' @ js ''cause'')"
proof -
  have h: "list_all isWhiteSpace (inputText \<lparr>inputText = js ''  '' @ [10], outputText = js ''old'',
        statusMessage_textContent = [], statusMessage_className = []\<rparr>)"
    by (simp add: chars)
  from h empty_input_reported_before_parsing[OF h] show ?thesis by (rule conjI)
qed

section \<open>Semicolons and colons are interchangeable\<close>

lemma matches_same:
  "c = c' \<or> (isSeparator c \<and> isSeparator c') \<Longrightarrow> matches cl c = matches cl c'"
  by (cases cl) (auto simp: isSeparator_def isDigit_def isWhiteSpace_def isDash_def)

lemma takeWhile_same:
  "sameUpToSeparators s s' \<Longrightarrow>
     length (takeWhile (matches cl) s) = length (takeWhile (matches cl) s')"
  unfolding sameUpToSeparators_def
  by (induction rule: list_all2_induct) (auto simp: matches_same)

lemma drop_same: "sameUpToSeparators s s' \<Longrightarrow> sameUpToSeparators (drop j s) (drop j s')"
  unfolding sameUpToSeparators_def by (rule list_all2_dropI)

lemma take_same: "sameUpToSeparators s s' \<Longrightarrow> sameUpToSeparators (take j s) (take j s')"
  unfolding sameUpToSeparators_def by (rule list_all2_takeI)

lemma length_same: "sameUpToSeparators s s' \<Longrightarrow> length s = length s'"
  unfolding sameUpToSeparators_def by (rule list_all2_lengthD)

lemma list_all2_map_same:
  "(\<And>x. x \<in> set xs \<Longrightarrow> R (f x) (g x)) \<Longrightarrow> list_all2 R (map f xs) (map g xs)"
  by (induction xs) auto

lemma list_all2_concat_map:
  "list_all2 A xs ys \<Longrightarrow> (\<And>x y. A x y \<Longrightarrow> list_all2 B (f x) (g y)) \<Longrightarrow>
     list_all2 B (concat (map f xs)) (concat (map g ys))"
  by (induction rule: list_all2_induct) (auto intro: list_all2_appendI)

lemma backtrack_same:
  "sameUpToSeparators s s' \<Longrightarrow>
     list_all2 sameUpToSeparators (backtrack r s) (backtrack r s')"
proof (induction r arbitrary: s s')
  case (One cl)
  show ?case
  proof (cases s)
    case Nil
    then have "s' = []" using One by (simp add: sameUpToSeparators_def)
    then show ?thesis using Nil by simp
  next
    case (Cons c cs)
    then obtain c' cs' where s': "s' = c' # cs'"
      and c: "c = c' \<or> (isSeparator c \<and> isSeparator c')"
      and cs: "sameUpToSeparators cs cs'"
      using One by (auto simp: sameUpToSeparators_def list_all2_Cons1)
    show ?thesis using Cons s' cs matches_same[OF c, of cl] by simp
  qed
next
  case (Between lo hi cl)
  show ?case
    using takeWhile_same[OF Between, of cl] drop_same[OF Between]
    by (simp add: Let_def list_all2_map_same del: upt_Suc)
next
  case (Many cl)
  show ?case
    using takeWhile_same[OF Many, of cl] drop_same[OF Many]
    by (simp add: Let_def list_all2_map_same del: upt_Suc)
next
  case (Then r1 r2)
  show ?case
    unfolding backtrack.simps
    by (rule list_all2_concat_map[OF Then.IH(1)[OF Then.prems]]) (rule Then.IH(2))
qed


lemma list_all2_map_rel:
  "list_all2 A xs ys \<Longrightarrow> (\<And>x y. A x y \<Longrightarrow> B (f x) (g y)) \<Longrightarrow>
     list_all2 B (map f xs) (map g ys)"
  by (induction rule: list_all2_induct) auto

lemma consumed_same:
  assumes "sameUpToSeparators s s'" "sameUpToSeparators rest rest'"
  shows "sameUpToSeparators (consumed s rest) (consumed s' rest')"
proof -
  have "length s - length rest = length s' - length rest'"
    using length_same[OF assms(1)] length_same[OF assms(2)] by simp
  then show ?thesis
    unfolding consumed_def using take_same[OF assms(1), of "length s - length rest"] by simp
qed

lemma attempt_same:
  assumes "sameUpToSeparators s s'"
  shows "list_all2 sameGroups (attempt s) (attempt s')"
  unfolding attempt_def
proof (rule list_all2_concat_map[OF backtrack_same[OF assms]])
  fix s1 s1' assume 1: "sameUpToSeparators s1 s1'"
  show "list_all2 sameGroups
          (concat (map (\<lambda>s2. map (\<lambda>s3. (consumed s s3, consumed s s1, consumed s2 s3))
                                (backtrack timecode s2)) (backtrack dash s1)))
          (concat (map (\<lambda>s2. map (\<lambda>s3. (consumed s' s3, consumed s' s1', consumed s2 s3))
                                (backtrack timecode s2)) (backtrack dash s1')))"
  proof (rule list_all2_concat_map[OF backtrack_same[OF 1]])
    fix s2 s2' assume 2: "sameUpToSeparators s2 s2'"
    show "list_all2 sameGroups
            (map (\<lambda>s3. (consumed s s3, consumed s s1, consumed s2 s3)) (backtrack timecode s2))
            (map (\<lambda>s3. (consumed s' s3, consumed s' s1', consumed s2' s3)) (backtrack timecode s2'))"
    proof (rule list_all2_map_rel[OF backtrack_same[OF 2]])
      fix s3 s3' assume 3: "sameUpToSeparators s3 s3'"
      show "sameGroups (consumed s s3, consumed s s1, consumed s2 s3)
                       (consumed s' s3', consumed s' s1', consumed s2' s3')"
        unfolding sameGroups_def using assms 1 2 3 by (simp add: consumed_same)
    qed
  qed
qed

lemma search_same:
  "sameUpToSeparators s s' \<Longrightarrow> rel_option sameMatch (search i s) (search i s')"
proof (induction s arbitrary: s' i)
  case Nil
  then have s': "s' = []" by (simp add: sameUpToSeparators_def)
  from attempt_same[OF Nil] show ?case
    unfolding s'
    by (cases "attempt []") (auto simp: search.simps sameMatch_def sameGroups_def)
next
  case (Cons c cs)
  then obtain c' cs' where s': "s' = c' # cs'" and cs: "sameUpToSeparators cs cs'"
    by (auto simp: sameUpToSeparators_def list_all2_Cons1)
  from attempt_same[OF Cons.prems] have a: "list_all2 sameGroups (attempt (c # cs)) (attempt (c' # cs'))"
    unfolding s' .
  show ?case
  proof (cases "attempt (c # cs)")
    case Nil
    then have "attempt (c' # cs') = []" using a by simp
    then show ?thesis using Nil Cons.IH[OF cs, of "Suc i"] unfolding s'
      by (simp add: search.simps)
  next
    case (Cons g gs)
    then obtain g' gs' where g': "attempt (c' # cs') = g' # gs'" and gg: "sameGroups g g'"
      using a by (auto simp: list_all2_Cons1)
    obtain m0 m1 m2 where g: "g = (m0, m1, m2)" by (cases g) auto
    obtain m0' m1' m2' where g2: "g' = (m0', m1', m2')" by (cases g') auto
    show ?thesis unfolding s'
      using Cons g' gg g g2
      by (simp add: search.simps[of i "c # cs"] search.simps[of i "c' # cs'"]
          sameMatch_def sameGroups_def)
  qed
qed

lemma split_same:
  "sameUpToSeparators s s' \<Longrightarrow> split isSeparator s = split isSeparator s'"
  unfolding sameUpToSeparators_def
  by (induction rule: list_all2_induct) auto

lemma mixed_example:
  "sameUpToSeparators (js ''00:00:03;15 - 00;00;06:20'') (js ''00;00;03;15 - 00;00;06;20'')"
  by (simp add: sameUpToSeparators_def chars)

text \<open>
  The pattern and the split do not tell a semicolon from a colon. Take a line and
  replace any of the semicolons and colons in it by the other separator. The pattern
  matches the one line exactly when it matches the other, at the same position, with
  groups that again differ in their separators only, and \<open>convertTimecode\<close> gives the
  same timestamps for the groups of either line.
\<close>

lemma separators_interchangeable:
  assumes "sameUpToSeparators line line'"
  shows "rel_option
           (\<lambda>m m'. sameMatch m m'
              \<and> convertTimecode (match1 m) fps = convertTimecode (match1 m') fps
              \<and> convertTimecode (match2 m) fps = convertTimecode (match2 m') fps)
           (timecodePattern line) (timecodePattern line')"
proof -
  have r: "rel_option sameMatch (timecodePattern line) (timecodePattern line')"
    unfolding timecodePattern_def using assms by (rule search_same)
  show ?thesis
  proof (cases "timecodePattern line")
    case None
    then show ?thesis using r by (cases "timecodePattern line'") auto
  next
    case (Some m)
    then obtain m' where m': "timecodePattern line' = Some m'" and mm: "sameMatch m m'"
      using r by (cases "timecodePattern line'") auto
    from timecodePattern_groups[OF Some] lang_timecode_split obtain a1 a2 a3 a4 b1 b2 b3 b4 where
      a: "split isSeparator (match1 m) = [a1, a2, a3, a4]" and
      b: "split isSeparator (match2 m) = [b1, b2, b3, b4]" by metis
    have a': "split isSeparator (match1 m') = [a1, a2, a3, a4]"
      using a mm split_same[of "match1 m" "match1 m'"] by (simp add: sameMatch_def)
    have b': "split isSeparator (match2 m') = [b1, b2, b3, b4]"
      using b mm split_same[of "match2 m" "match2 m'"] by (simp add: sameMatch_def)
    have "convertTimecode (match1 m) fps = convertTimecode (match1 m') fps"
      by (simp add: convertTimecode_four[OF a] convertTimecode_four[OF a'])
    moreover have "convertTimecode (match2 m) fps = convertTimecode (match2 m') fps"
      by (simp add: convertTimecode_four[OF b] convertTimecode_four[OF b'])
    ultimately show ?thesis using Some m' mm by simp
  qed
qed

lemma separators_interchangeable_example:
  "sameUpToSeparators (js ''00:00:03;15 - 00;00;06:20'') (js ''00;00;03;15 - 00;00;06;20'')
   \<and> rel_option
           (\<lambda>m m'. sameMatch m m'
              \<and> convertTimecode (match1 m) (Finite False 24 0)
                  = convertTimecode (match1 m') (Finite False 24 0)
              \<and> convertTimecode (match2 m) (Finite False 24 0)
                  = convertTimecode (match2 m') (Finite False 24 0))
           (timecodePattern (js ''00:00:03;15 - 00;00;06:20''))
           (timecodePattern (js ''00;00;03;15 - 00;00;06;20''))"
proof -
  have h: "sameUpToSeparators (js ''00:00:03;15 - 00;00;06:20'')
             (js ''00;00;03;15 - 00;00;06;20'')"
    by (rule mixed_example)
  from h separators_interchangeable[OF h] show ?thesis by (rule conjI)
qed

section \<open>Timestamps and texts of the cues\<close>

lemma decimal_digits: "c \<in> set (decimal n) \<Longrightarrow> isDigit c"
proof (induction n rule: decimal.induct)
  case (1 n)
  show ?case
  proof (cases "n < 10")
    case True
    then show ?thesis using "1.prems" by (simp add: decimal.simps[of n] isDigit_def)
  next
    case False
    then have "c \<in> set (decimal (n div 10)) \<or> c = 48 + n mod 10"
      using "1.prems" by (auto simp: decimal.simps[of n])
    then show ?thesis using "1.IH" False by (auto simp: isDigit_def)
  qed
qed

lemma exponential_chars:
  "c \<in> set (exponential n) \<Longrightarrow> isDigit c \<or> c = 46 \<or> c = 101 \<or> c = 43"
  unfolding exponential_def Let_def
  by (auto simp: js_def dest!: in_set_takeD in_set_dropD set_dropWhileD decimal_digits split: if_splits)

lemma Number_toString_chars:
  assumes "c \<in> set (Number_toString x)"
  shows "\<not> isSeparator c"
proof (cases x)
  case NaNInt
  then show ?thesis using assms by (auto simp: js_def isSeparator_def)
next
  case (InfinityInt s)
  then show ?thesis using assms by (auto simp: js_def isSeparator_def split: if_splits)
next
  case (Integer s v)
  have "c = 48 \<or> c = 45 \<or> c \<in> set (decimal v) \<or> c \<in> set (decimal (shortest v))
      \<or> c \<in> set (exponential (shortest v))"
    using assms unfolding Integer by (auto simp: js_def Let_def split: if_splits)
  then consider "c = 48" | "c = 45" | n where "c \<in> set (decimal n)"
    | n where "c \<in> set (exponential n)" by blast
  then show ?thesis
  proof cases
    case 1
    then show ?thesis by (simp add: isSeparator_def)
  next
    case 2
    then show ?thesis by (simp add: isSeparator_def)
  next
    case 3
    from decimal_digits[OF this] show ?thesis by (simp add: isSeparator_def isDigit_def)
  next
    case 4
    from exponential_chars[OF this] show ?thesis by (auto simp: isSeparator_def isDigit_def)
  qed
qed

lemma padStart_chars: "c \<in> set (padStart n s) \<Longrightarrow> c = 48 \<or> c \<in> set s"
  by (auto simp: padStart_def)

lemma convertTimecode_timestamp:
  assumes "convertTimecode tc fps = Inr ts"
  shows "length (split isSeparator ts) = 3"
proof -
  define parts where "parts = split isSeparator tc"
  have len: "length parts = 4"
    using assms unfolding convertTimecode_def parts_def by (auto simp: Let_def split: if_splits)
  define H where "H = padStart 2 (parts ! 0)"
  define M where "M = padStart 2 (parts ! 1)"
  define S where "S = padStart 2 (parts ! 2)"
  define MS where "MS = padStart 3 (Number_toString (framesToMilliseconds (parseInt (parts ! 3)) fps))"
  have ts: "ts = H @ 58 # M @ 58 # (S @ 44 # MS)"
    using assms len unfolding convertTimecode_def parts_def[symmetric] H_def M_def S_def MS_def
    by (simp add: Let_def js_def)
  have part: "\<And>k c. k < 4 \<Longrightarrow> c \<in> set (parts ! k) \<Longrightarrow> \<not> isSeparator c"
    using split_parts[of _ isSeparator tc] len unfolding parts_def by (metis nth_mem)
  have zero: "\<not> isSeparator 48" by (simp add: isSeparator_def)
  have h: "\<forall>c \<in> set H. \<not> isSeparator c"
    unfolding H_def using padStart_chars part[of 0] zero by fastforce
  have m: "\<forall>c \<in> set M. \<not> isSeparator c"
    unfolding M_def using padStart_chars part[of 1] zero by fastforce
  have s: "\<forall>c \<in> set S. \<not> isSeparator c"
    unfolding S_def using padStart_chars part[of 2] zero by fastforce
  have ms: "\<forall>c \<in> set MS. \<not> isSeparator c"
    unfolding MS_def using padStart_chars Number_toString_chars zero by fastforce
  have rest: "\<forall>c \<in> set (S @ 44 # MS). \<not> isSeparator c"
    using s ms by (auto simp: isSeparator_def)
  have colon: "isSeparator 58" by (simp add: isSeparator_def)
  show ?thesis
    unfolding ts by (simp add: split_append[OF h colon] split_append[OF m colon] split_none[OF rest])
qed

lemma convertTimecode_rejects:
  assumes "length (split isSeparator ts) = 3"
  shows "convertTimecode ts fps = Inl (Error (js ''Invalid timecode format: '' @ ts))"
  using assms by (simp add: convertTimecode_def)

lemma loop_invariant:
  assumes "\<And>i l p p'. I p \<Longrightarrow> step fps i l p = Inr p' \<Longrightarrow> I p'"
    and "I p" and "loop fps i ls p = Inr p'"
  shows "I p'"
  using assms(2,3)
proof (induction ls arbitrary: i p)
  case Nil
  then show ?case by simp
next
  case (Cons l ls)
  obtain p1 where p1: "step fps i l p = Inr p1" using step_total by blast
  then have "I p1" using assms(1) Cons.prems(1) by blast
  moreover have "loop fps (Suc i) ls p1 = Inr p'" using Cons.prems(2) p1 by simp
  ultimately show ?case by (rule Cons.IH)
qed

lemma timed_text [simp]: "timed (sub\<lparr>text' := t\<rparr>) = timed sub"
  by (simp add: timed_def)

lemma join_not_Nil: "l \<noteq> [] \<Longrightarrow> join (l # ls) \<noteq> []"
  by (cases ls) simp_all

lemma worded_join:
  assumes "ls \<noteq> []" "list_all (\<lambda>l. l \<noteq> []) ls"
  shows "worded (sub\<lparr>text' := Some (join ls)\<rparr>)"
proof -
  obtain l ls' where "ls = l # ls'" "l \<noteq> []" using assms by (cases ls) auto
  then show ?thesis by (simp add: worded_def join_not_Nil)
qed

lemma step_inOrder:
  assumes "inOrder p" "step fps i l p = Inr p'"
  shows "inOrder p'"
proof (cases "trim l = []")
  case True
  then show ?thesis using assms
    by (auto simp: step_def inOrder_def Let_def worded_join split: option.splits if_splits)
next
  case False
  show ?thesis
  proof (cases "timecodePattern (trim l)")
    case None
    then show ?thesis using assms False
      by (auto simp: step_def inOrder_def Let_def split: option.splits)
  next
    case (Some m)
    from timecodePattern_convert[OF Some, of fps] obtain a b where
      ab: "convertTimecode (match1 m) fps = Inr a" "convertTimecode (match2 m) fps = Inr b"
      by blast
    have t: "timed \<lparr>startTime = a, endTime = b, text' = None\<rparr>"
      using convertTimecode_timestamp[OF ab(1)] convertTimecode_timestamp[OF ab(2)]
      by (simp add: timed_def)
    show ?thesis using assms False Some ab t
      by (auto simp: step_def inOrder_def Let_def worded_join split: option.splits if_splits)
  qed
qed

lemma collect_inOrder:
  assumes "collect input fps = Inr subs"
  shows "list_all timed subs \<and> list_all worded subs"
proof -
  obtain p where p: "loop fps 0 (split isNewline (trim input))
      \<lparr>subtitles = [], currentSubtitle = None, subtitleText = []\<rparr> = Inr p"
    using loop_total by blast
  have init: "inOrder \<lparr>subtitles = [], currentSubtitle = None, subtitleText = []\<rparr>"
    by (simp add: inOrder_def)
  have "inOrder p" by (rule loop_invariant[where I = inOrder, OF step_inOrder init p])
  moreover have "subs = finalize p" using assms p by (simp add: collect_def)
  ultimately show ?thesis
    by (auto simp: inOrder_def finalize_def worded_join split: option.splits)
qed

text \<open>Every cue that \<open>parseAndConvert\<close> emits has a text, and the text is not empty.\<close>

lemma emitted_cues_have_text:
  assumes "collect input fps = Inr subs"
  shows "list_all (\<lambda>sub. \<exists>t. text' sub = Some t \<and> t \<noteq> []) subs"
proof -
  have "list_all worded subs" using collect_inOrder[OF assms] by simp
  then show ?thesis
    unfolding list_all_iff worded_def by (auto split: option.splits)
qed

text \<open>
  Claim C8, amended. The timestamps of an emitted document do not pass through
  \<open>convertTimecode\<close> again: a timestamp \<open>HH:MM:SS,mmm\<close> splits at its two colons into
  three parts, so for the start and the end of every cue of every document
  \<open>convertTimecode\<close> throws \<open>Invalid timecode format\<close>, whatever the frame rate.
\<close>

theorem emitted_timestamps_are_rejected:
  assumes "parseAndConvert input fps = Inr doc"
  shows "\<exists>subs. collect input fps = Inr subs \<and> doc = trim (emit 0 subs)
          \<and> list_all (\<lambda>sub.
                convertTimecode (startTime sub) fps' =
                  Inl (Error (js ''Invalid timecode format: '' @ startTime sub))
              \<and> convertTimecode (endTime sub) fps' =
                  Inl (Error (js ''Invalid timecode format: '' @ endTime sub))) subs"
proof -
  obtain subs where subs: "collect input fps = Inr subs" using collect_total by blast
  have doc: "doc = trim (emit 0 subs)"
    using assms subs by (auto simp: parseAndConvert_def split: if_splits)
  have "list_all timed subs" using collect_inOrder[OF subs] by simp
  then have "list_all (\<lambda>sub.
                convertTimecode (startTime sub) fps' =
                  Inl (Error (js ''Invalid timecode format: '' @ startTime sub))
              \<and> convertTimecode (endTime sub) fps' =
                  Inl (Error (js ''Invalid timecode format: '' @ endTime sub))) subs"
    unfolding list_all_iff timed_def by (simp add: convertTimecode_rejects)
  then show ?thesis using subs doc by blast
qed

section \<open>The accuracy of the arithmetic\<close>

text \<open>
  The rounding to binary64 is off by at most half a unit in the last place, which for a
  normal number is a relative error of \<open>2\<^sup>-\<^sup>5\<^sup>3\<close>, and an integer below \<open>2\<^sup>5\<^sup>3\<close> is kept as
  it is. \<open>Math.round\<close> gives the integer \<open>k\<close> with \<open>k - 1/2 \<le> x < k + 1/2\<close>.
\<close>

lemma bitlen_bounds:
  "0 < n \<Longrightarrow> 2 ^ (bitlen n - 1) \<le> n \<and> n < 2 ^ bitlen n"
proof (induction n rule: bitlen.induct)
  case (1 n)
  show ?case
  proof (cases "n div 2 = 0")
    case True
    then have "n = 1" using "1.prems" by linarith
    then show ?thesis by (simp add: bitlen.simps[of "Suc 0"] bitlen.simps[of 0])
  next
    case False
    then have pos: "0 < n div 2" by simp
    from "1.IH" "1.prems" pos
    have ih: "2 ^ (bitlen (n div 2) - 1) \<le> n div 2" "n div 2 < 2 ^ bitlen (n div 2)" by simp_all
    have b: "bitlen n = Suc (bitlen (n div 2))" using "1.prems" by (simp add: bitlen.simps[of n])
    have bp: "0 < bitlen (n div 2)" using pos by (simp add: bitlen.simps[of "n div 2"])
    then obtain c where c: "bitlen (n div 2) = Suc c" by (cases "bitlen (n div 2)") auto
    have "2 ^ Suc c \<le> 2 * (n div 2)" using ih(1) c by simp
    then have lo: "2 ^ (bitlen n - 1) \<le> n" unfolding b c by simp
    have "n div 2 + 1 \<le> 2 ^ bitlen (n div 2)" using ih(2) by simp
    then have "2 * (n div 2) + 2 \<le> 2 ^ bitlen n" unfolding b by simp
    then have hi: "n < 2 ^ bitlen n" by linarith
    show ?thesis using lo hi by simp
  qed
qed

lemma powi_split: "(2::real) powi i = 2 ^ nat i / 2 ^ nat (- i)"
proof (cases "0 \<le> i")
  case True
  then show ?thesis by (simp add: power_int_def)
next
  case False
  then show ?thesis by (simp add: power_int_def power_one_over)
qed

lemma powi_pos [simp]: "0 < (2::real) powi i"
  by (simp add: power_int_def)

lemma powi_add: "(2::real) powi (i + j) = 2 powi i * 2 powi j"
  by (simp add: power_int_add)

lemma powi_mono: "i \<le> j \<Longrightarrow> (2::real) powi i \<le> 2 powi j"
  by (simp add: power_int_increasing)

lemma powi_nat: "(2::real) powi int k = 2 ^ k"
  by simp


lemma bitlen_powi:
  assumes "0 < n"
  shows "2 powi (int (bitlen n) - 1) \<le> real n" "real n < 2 powi int (bitlen n)"
proof -
  from bitlen_bounds[OF assms] have b: "2 ^ (bitlen n - 1) \<le> n" "n < 2 ^ bitlen n" by simp_all
  have pos: "0 < bitlen n" using assms by (simp add: bitlen.simps[of n])
  then obtain c where c: "bitlen n = Suc c" by (cases "bitlen n") auto
  have "real (2 ^ c) \<le> real n" using b(1) unfolding c by (simp only: of_nat_le_iff diff_Suc_1)
  then have "(2::real) ^ c \<le> real n" by simp
  moreover have "int (Suc c) - 1 = int c" by simp
  ultimately show "2 powi (int (bitlen n) - 1) \<le> real n"
    unfolding c by (simp only: power_int_of_nat)
  have "real n < real (2 ^ bitlen n)" using b(2) by (simp only: of_nat_less_iff)
  then have "real n < (2::real) ^ bitlen n" by simp
  then show "real n < 2 powi int (bitlen n)" by (simp only: power_int_of_nat)
qed

lemma div_le_div_iff:
  fixes a b c d :: real
  shows "0 < b \<Longrightarrow> 0 < d \<Longrightarrow> (a / b \<le> c / d) = (a * d \<le> c * b)"
  by (simp add: field_simps)

lemma exponent_bounds:
  assumes "0 < p" "0 < q"
    and "d = int (bitlen p) - int (bitlen q)"
    and "E = (if q * 2 ^ nat d \<le> p * 2 ^ nat (- d) then d else d - 1)"
  shows "2 powi E \<le> real p / real q" "real p / real q < 2 powi (E + 1)"
proof -
  have qpos: "0 < real q" using assms(2) by simp
  note P = bitlen_powi[OF assms(1)]
  note Q = bitlen_powi[OF assms(2)]
  have up: "real p / real q < 2 powi (d + 1)"
  proof -
    have "real p / real q < 2 powi int (bitlen p) / 2 powi (int (bitlen q) - 1)"
      using P(2) Q(1) qpos by (intro frac_less) simp_all
    also have "\<dots> = 2 powi (int (bitlen p) - (int (bitlen q) - 1))"
      by (simp add: power_int_diff)
    finally show ?thesis unfolding assms(3) by (simp add: algebra_simps)
  qed
  have lo: "2 powi (d - 1) < real p / real q"
  proof -
    have "2 powi (int (bitlen p) - 1) / 2 powi int (bitlen q) < real p / real q"
      using P(1) Q(2) qpos by (intro frac_less2) simp_all
    moreover have "2 powi (int (bitlen p) - 1) / 2 powi int (bitlen q)
        = (2::real) powi (int (bitlen p) - 1 - int (bitlen q))"
      by (simp add: power_int_diff)
    ultimately show ?thesis unfolding assms(3) by (simp add: algebra_simps)
  qed
  have cond: "(q * 2 ^ nat d \<le> p * 2 ^ nat (- d)) = (2 powi d \<le> real p / real q)"
  proof -
    have "(q * 2 ^ nat d \<le> p * 2 ^ nat (- d))
        = (real (q * 2 ^ nat d) \<le> real (p * 2 ^ nat (- d)))" by (simp only: of_nat_le_iff)
    also have "\<dots> = (real q * 2 ^ nat d \<le> real p * 2 ^ nat (- d))" by simp
    also have "\<dots> = (2 ^ nat d / 2 ^ nat (- d) \<le> real p / real q)"
      using qpos by (simp add: div_le_div_iff mult.commute)
    finally show ?thesis unfolding powi_split[of d] .
  qed
  show "2 powi E \<le> real p / real q"
    unfolding assms(4) using cond lo by auto
  show "real p / real q < 2 powi (E + 1)"
    unfolding assms(4) using cond up by (auto simp: not_le)
qed

lemma round_half:
  fixes n r den :: nat
  assumes "0 < den" "r < den" "num = n * den + r"
    and "n' = (if den < 2 * r \<or> (2 * r = den \<and> odd n) then n + 1 else n)"
  shows "\<bar>real n' - real num / real den\<bar> \<le> 1 / 2"
proof -
  have q: "real num / real den = real n + real r / real den"
    using assms(1,3) by (simp add: field_simps)
  have r1: "0 \<le> real r / real den" "real r / real den < 1" using assms(1,2) by simp_all
  show ?thesis
  proof (cases "den < 2 * r \<or> (2 * r = den \<and> odd n)")
    case True
    then have "den \<le> 2 * r" by auto
    then have "real den \<le> real (2 * r)" by (simp only: of_nat_le_iff)
    then have "real den \<le> 2 * real r" by simp
    then have "1 / 2 \<le> real r / real den" using assms(1) by (simp add: field_simps)
    moreover have "n' = n + 1" using True assms(4) by simp
    ultimately show ?thesis using q r1 by simp
  next
    case False
    then have "2 * r \<le> den" by auto
    then have "real (2 * r) \<le> real den" by (simp only: of_nat_le_iff)
    then have "2 * real r \<le> real den" by simp
    then have "real r / real den \<le> 1 / 2" using assms(1) by (simp add: field_simps)
    moreover have "n' = n" using False assms(4) by simp
    ultimately show ?thesis using q r1 by simp
  qed
qed

lemma powi_cancel: "(2::real) powi (- t) * 2 powi t = 1"
proof -
  have "(2::real) powi (- t) * 2 powi t = 2 powi (- t + t)" by (simp only: powi_add)
  then show ?thesis by simp
qed

lemma powi_less_imp: "(2::real) powi i < 2 powi j \<Longrightarrow> i < j"
  using powi_mono[of j i] by (cases "i < j") auto

lemma powi_minus_52: "(2::real) powi (E - 52) = 2 powi E / 2 ^ 52"
proof -
  have "(2::real) powi (E - 52) = 2 powi E / 2 powi 52" by (simp add: power_int_diff)
  then show ?thesis by simp
qed

lemma roundToDouble_near:
  assumes "0 < p" "0 < q" "real p / real q < 2 ^ 1023"
  shows "\<exists>n t. roundToDouble neg p q = Finite neg n t
          \<and> \<bar>real n * 2 powi t - real p / real q\<bar> \<le> 2 powi t / 2
          \<and> (2 powi (- 1022) \<le> real p / real q \<longrightarrow> 2 powi t / 2 \<le> real p / real q / 2 ^ 53)
          \<and> (t = - 1074 \<or> 2 powi t \<le> real p / real q / 2 ^ 52)"
proof -
  define y where "y = real p / real q"
  define d where "d = int (bitlen p) - int (bitlen q)"
  define E where "E = (if q * 2 ^ nat d \<le> p * 2 ^ nat (- d) then d else d - 1)"
  define t where "t = max E (- 1022) - 52"
  define num where "num = p * 2 ^ nat (- t)"
  define den where "den = q * 2 ^ nat t"
  define n where "n = num div den"
  define r where "r = num mod den"
  define n' where "n' = (if den < 2 * r \<or> (2 * r = den \<and> odd n) then n + 1 else n)"
  have unfold: "roundToDouble neg p q =
      (if 0 \<le> t \<and> 2 ^ 1024 \<le> n' * 2 ^ nat t then Infinity neg else Finite neg n' t)"
    unfolding roundToDouble_def Let_def n'_def n_def r_def num_def den_def t_def E_def d_def ..
  have ypos: "0 < y" unfolding y_def using assms(1,2) by simp
  have Eb: "2 powi E \<le> y" "y < 2 powi (E + 1)"
    unfolding y_def using exponent_bounds[OF assms(1,2) d_def E_def] by simp_all
  have denpos: "0 < den" unfolding den_def using assms(2) by simp
  have nd: "num = n * den + r" "r < den"
    unfolding n_def r_def using denpos by simp_all
  have half: "\<bar>real n' - real num / real den\<bar> \<le> 1 / 2"
    by (rule round_half[OF denpos nd(2) nd(1) n'_def])
  have ratio: "real num / real den = y * 2 powi (- t)"
  proof -
    have "real num / real den = (real p / real q) * (2 ^ nat (- t) / 2 ^ nat t)"
      unfolding num_def den_def by simp
    moreover have "(2::real) powi (- t) = 2 ^ nat (- t) / 2 ^ nat t"
      using powi_split[of "- t"] by simp
    ultimately show ?thesis unfolding y_def by simp
  qed
  have near: "\<bar>real n' * 2 powi t - y\<bar> \<le> 2 powi t / 2"
  proof -
    have "real n' * 2 powi t - y = (real n' - y * 2 powi (- t)) * 2 powi t"
      using powi_cancel[of t] by (simp add: algebra_simps)
    then have "\<bar>real n' * 2 powi t - y\<bar> = \<bar>real n' - real num / real den\<bar> * 2 powi t"
      unfolding ratio by (simp add: abs_mult)
    also have "\<dots> \<le> 1 / 2 * 2 powi t"
      using half by (intro mult_right_mono) simp_all
    finally show ?thesis by simp
  qed
  have normal: "t = E - 52" if "- 1022 \<le> E"
    unfolding t_def using that by simp
  have rel: "2 powi t / 2 \<le> y / 2 ^ 53" if "- 1022 \<le> E"
  proof -
    have "(2::real) powi t / 2 = 2 powi E / 2 ^ 53"
      unfolding normal[OF that] powi_minus_52 by simp
    also have "\<dots> \<le> y / 2 ^ 53" using Eb(1) by (simp add: divide_right_mono)
    finally show ?thesis .
  qed
  have fits: "\<not> (0 \<le> t \<and> 2 ^ 1024 \<le> n' * 2 ^ nat t)"
  proof
    assume a: "0 \<le> t \<and> 2 ^ 1024 \<le> n' * 2 ^ nat t"
    then have E: "- 1022 \<le> E" unfolding t_def by (simp add: max_def split: if_splits)
    have "real (2 ^ 1024) \<le> real (n' * 2 ^ nat t)" using a by (simp only: of_nat_le_iff)
    then have "(2::real) ^ 1024 \<le> real n' * 2 ^ nat t" by simp
    moreover have "(2::real) powi t = 2 ^ nat t" using a by (simp add: power_int_def)
    ultimately have big: "(2::real) ^ 1024 \<le> real n' * 2 powi t" by simp
    have "real n' * 2 powi t \<le> y + 2 powi t / 2" using near by linarith
    also have "\<dots> \<le> y + y / 2 ^ 53" using rel[OF E] by simp
    also have "\<dots> \<le> 2 * y" using ypos by simp
    also have "\<dots> < 2 * 2 ^ 1023" using assms(3) unfolding y_def by simp
    finally show False using big by simp
  qed
  have "roundToDouble neg p q = Finite neg n' t" unfolding unfold using fits by simp
  moreover have "2 powi (- 1022) \<le> y \<longrightarrow> 2 powi t / 2 \<le> y / 2 ^ 53"
  proof
    assume "2 powi (- 1022) \<le> y"
    then have "(2::real) powi (- 1022) < 2 powi (E + 1)" using Eb(2) by simp
    then have "- 1022 < E + 1" by (rule powi_less_imp)
    then have "- 1022 \<le> E" by simp
    then show "2 powi t / 2 \<le> y / 2 ^ 53" by (rule rel)
  qed
  moreover have "t = - 1074 \<or> 2 powi t \<le> y / 2 ^ 52"
  proof (cases "- 1022 \<le> E")
    case True
    have "(2::real) powi t = 2 powi E / 2 ^ 52" unfolding normal[OF True] by (rule powi_minus_52)
    also have "\<dots> \<le> y / 2 ^ 52" using Eb(1) by (simp add: divide_right_mono)
    finally show ?thesis by simp
  next
    case False
    then show ?thesis unfolding t_def by simp
  qed
  ultimately show ?thesis using near unfolding y_def by blast
qed

lemma roundScaled_near:
  assumes "0 < p" "0 < q" "real p / real q * 2 powi e < 2 ^ 1023"
    and "2 powi (- 1022) \<le> real p / real q * 2 powi e"
  shows "\<exists>n t. roundScaled neg p q e = Finite neg n t
          \<and> \<bar>real n * 2 powi t - real p / real q * 2 powi e\<bar>
              \<le> real p / real q * 2 powi e / 2 ^ 53"
proof -
  have y: "real (p * 2 ^ nat e) / real (q * 2 ^ nat (- e)) = real p / real q * 2 powi e"
    unfolding powi_split[of e] by simp
  have "0 < p * 2 ^ nat e" "0 < q * 2 ^ nat (- e)" using assms(1,2) by simp_all
  from roundToDouble_near[OF this, of neg] obtain n t where
    r: "roundToDouble neg (p * 2 ^ nat e) (q * 2 ^ nat (- e)) = Finite neg n t"
       "\<bar>real n * 2 powi t - real p / real q * 2 powi e\<bar> \<le> 2 powi t / 2"
       "2 powi t / 2 \<le> real p / real q * 2 powi e / 2 ^ 53"
    unfolding y using assms(3,4) by blast
  show ?thesis unfolding roundScaled_def using r by (intro exI[of _ n] exI[of _ t]) linarith
qed

lemma roundToDouble_exact:
  assumes "0 < v" "v < 2 ^ 53"
  shows "\<exists>n t. roundToDouble neg v 1 = Finite neg n t \<and> real n * 2 powi t = real v"
proof -
  have small: "real v / real 1 < 2 ^ 1023"
  proof -
    have "real v < real (2 ^ 53)" using assms(2) by (simp only: of_nat_less_iff)
    then have "real v < 2 ^ 53" by simp
    also have "(2::real) ^ 53 < 2 ^ 1023" by simp
    finally show ?thesis by simp
  qed
  have v53: "real v < 2 ^ 53"
  proof -
    have "real v < real (2 ^ 53)" using assms(2) by (simp only: of_nat_less_iff)
    then show ?thesis by simp
  qed
  from roundToDouble_near[OF assms(1) zero_less_one small, of neg] obtain n t where
    r: "roundToDouble neg v 1 = Finite neg n t"
       "\<bar>real n * 2 powi t - real v\<bar> \<le> 2 powi t / 2"
       "t = - 1074 \<or> 2 powi t \<le> real v / 2 ^ 52"
    by auto
  have t0: "t \<le> 0"
  proof (rule ccontr)
    assume "\<not> t \<le> 0"
    then have t1: "1 \<le> t" by simp
    then have "(2::real) powi 1 \<le> 2 powi t" by (rule powi_mono)
    moreover have "2 powi t \<le> real v / 2 ^ 52" using r(3) t1 by auto
    ultimately have "2 * 2 ^ 52 \<le> real v" by (simp add: field_simps)
    then show False using v53 by simp
  qed
  define K where "K = nat (- t)"
  have pk: "(2::real) powi t * 2 ^ K = 1"
  proof -
    have "(2::real) powi (- t) = 2 ^ K" unfolding K_def using t0 by (simp add: power_int_def)
    then show ?thesis using powi_cancel[of t] by (simp add: mult.commute)
  qed
  have "\<bar>real n * 2 powi t - real v\<bar> * 2 ^ K \<le> 2 powi t / 2 * 2 ^ K"
    using r(2) by (intro mult_right_mono) simp_all
  moreover have "\<bar>real n * 2 powi t - real v\<bar> * 2 ^ K = \<bar>real n - real v * 2 ^ K\<bar>"
  proof -
    have "\<bar>real n * 2 powi t - real v\<bar> * 2 ^ K = \<bar>(real n * 2 powi t - real v) * 2 ^ K\<bar>"
      by (simp add: abs_mult)
    also have "(real n * 2 powi t - real v) * 2 ^ K = real n * (2 powi t * 2 ^ K) - real v * 2 ^ K"
      by (simp add: algebra_simps)
    finally show ?thesis unfolding pk by simp
  qed
  moreover have "2 powi t / 2 * 2 ^ K = (1::real) / 2" using pk by simp
  ultimately have "\<bar>real n - real (v * 2 ^ K)\<bar> \<le> 1 / 2" by simp
  then have "\<bar>real_of_int (int n - int (v * 2 ^ K))\<bar> < 1" by simp
  then have "\<bar>int n - int (v * 2 ^ K)\<bar> < 1" by linarith
  then have "int n = int (v * 2 ^ K)" by linarith
  then have n: "n = v * 2 ^ K" by (simp only: of_nat_eq_iff)
  have "real n * 2 powi t = real v * (2 powi t * 2 ^ K)" unfolding n by simp
  then have "real n * 2 powi t = real v" unfolding pk by simp
  then show ?thesis using r(1) by blast
qed

lemma digit_facts: "isDigit c \<Longrightarrow> \<not> isWhiteSpace c \<and> c \<noteq> 45 \<and> c \<noteq> 43"
  by (auto simp: isDigit_def isWhiteSpace_def)

lemma parseInt_digits:
  assumes "f \<noteq> []" "list_all isDigit f"
  shows "parseInt f =
    (if digitsValue f = 0 then Finite False 0 0 else roundToDouble False (digitsValue f) 1)"
proof -
  obtain c cs where f: "f = c # cs" using assms(1) by (cases f) auto
  have c: "isDigit c" using assms(2) f by simp
  note d = digit_facts[OF c]
  have 1: "dropWhile isWhiteSpace f = f" unfolding f using d by simp
  have 2: "takeWhile isDigit f = f" using assms(2) by (simp add: list_all_iff)
  show ?thesis
    unfolding parseInt_def 1 Let_def
    unfolding f list.case using d assms(1) 2[unfolded f] by simp
qed

lemma Math_round_near:
  "\<exists>k. Math_round (Finite False c e) = Integer False k
       \<and> real k - 1 / 2 \<le> real c * 2 powi e \<and> real c * 2 powi e < real k + 1 / 2"
proof (cases "0 \<le> e")
  case True
  then have p: "(2::real) powi e = 2 ^ nat e" by (simp add: power_int_def)
  have "Math_round (Finite False c e) = Integer False (c * 2 ^ nat e)" using True by simp
  moreover have "real (c * 2 ^ nat e) = real c * 2 powi e" unfolding p by simp
  ultimately show ?thesis by (intro exI[of _ "c * 2 ^ nat e"]) (simp only: , simp)
next
  case False
  define K where "K = nat (- e)"
  define A where "A = 2 * c + 2 ^ K"
  define B where "B = (2::nat) ^ Suc K"
  define k where "k = A div B"
  have m: "Math_round (Finite False c e) = Integer False k"
    unfolding k_def A_def B_def K_def
    by (simp only: Math_round.simps False if_False Let_def)
  have Bpos: "0 < B" unfolding B_def by simp
  have x: "real c * 2 powi e = real c / 2 ^ K"
    unfolding K_def powi_split[of e] using False by simp
  have AB: "real A / real B = real c / 2 ^ K + 1 / 2"
    unfolding A_def B_def by (simp add: field_simps)
  have "k * B \<le> A" unfolding k_def by simp
  then have "real (k * B) \<le> real A" by (simp only: of_nat_le_iff)
  then have lo: "real k \<le> real A / real B" using Bpos by (simp add: field_simps)
  have "A < (k + 1) * B" unfolding k_def using Bpos
    by (metis Suc_eq_plus1 dividend_less_div_times mult.commute mult_Suc add.commute)
  then have "real A < real ((k + 1) * B)" by (simp only: of_nat_less_iff)
  then have hi: "real A / real B < real k + 1" using Bpos by (simp add: field_simps)
  have "real k - 1 / 2 \<le> real c * 2 powi e" "real c * 2 powi e < real k + 1 / 2"
    using lo hi unfolding x AB by linarith+
  then show ?thesis using m by blast
qed

lemma framesToMilliseconds_near:
  assumes "f \<noteq> []" "list_all isDigit f" "digitsValue f < 2 ^ 53" "0 < p"
    and "1 / 2 ^ 900 \<le> real p * 2 powi e" "real p * 2 powi e \<le> 2 ^ 1000"
  shows "\<exists>k x. framesToMilliseconds (parseInt f) (Finite False p e) = Integer False k
          \<and> real k - 1 / 2 \<le> x \<and> x < real k + 1 / 2
          \<and> \<bar>x - real (digitsValue f) / (real p * 2 powi e) * 1000\<bar>
              \<le> real (digitsValue f) / (real p * 2 powi e) * 1000 / 2 ^ 51"
proof (cases "digitsValue f = 0")
  case True
  have "parseInt f = Finite False 0 0" using parseInt_digits[OF assms(1,2)] True by simp
  then have "framesToMilliseconds (parseInt f) (Finite False p e) = Integer False 0"
    using assms(4) by (simp add: framesToMilliseconds_def)
  then show ?thesis using True by (intro exI[of _ 0]) simp
next
  case False
  define v where "v = digitsValue f"
  define r where "r = real p * 2 powi e"
  have vpos: "0 < v" using False unfolding v_def by simp
  have v1: "1 \<le> real v" using vpos by simp
  have v53: "real v < 2 ^ 53"
  proof -
    have "real v < real (2 ^ 53)" using assms(3) unfolding v_def by (simp only: of_nat_less_iff)
    then show ?thesis by simp
  qed
  have rlo: "1 / 2 ^ 900 \<le> r" and rhi: "r \<le> 2 ^ 1000" using assms(5,6) unfolding r_def by simp_all
  have rpos: "0 < r" using rlo by (rule less_le_trans[rotated]) simp
  define y1 where "y1 = real v / r"
  have y1pos: "0 < y1" unfolding y1_def using vpos rpos by simp
  have y1hi: "y1 < 2 ^ 953"
  proof -
    have "y1 \<le> real v / (1 / 2 ^ 900)"
      unfolding y1_def using rlo v1 by (intro divide_left_mono) simp_all
    also have "\<dots> = real v * 2 ^ 900" by simp
    also have "\<dots> < 2 ^ 53 * 2 ^ 900" using v53 by simp
    also have "\<dots> = (2::real) ^ (53 + 900)" by (rule power_add[symmetric])
    also have "\<dots> = (2::real) ^ 953" by simp
    finally show ?thesis .
  qed
  have y1lo: "1 / 2 ^ 1000 \<le> y1"
  proof -
    have "1 / 2 ^ 1000 \<le> 1 / r" using rhi rpos by (intro divide_left_mono) simp_all
    also have "\<dots> \<le> real v / r" using v1 rpos by (intro divide_right_mono) simp_all
    finally show ?thesis unfolding y1_def .
  qed
  have tiny: "(2::real) powi (- 1022) \<le> 1 / 2 ^ 1000"
  proof -
    have "(2::real) powi (- 1022) = 2 ^ nat (- 1022) / 2 ^ nat (- (- 1022))"
      by (rule powi_split)
    also have "\<dots> = 1 / 2 ^ 1022" by simp
    also have "\<dots> \<le> 1 / 2 ^ 1000" by (intro divide_left_mono) simp_all
    finally show ?thesis .
  qed
  have "parseInt f = roundToDouble False v 1"
    using parseInt_digits[OF assms(1,2)] False unfolding v_def by simp
  with roundToDouble_exact[OF vpos assms(3)[folded v_def], of False] obtain a ea where
    a: "parseInt f = Finite False a ea" "real a * 2 powi ea = real v" by auto
  have apos: "0 < a" using a(2) vpos by (cases a) simp_all
  have q: "real a / real p * 2 powi (ea - e) = y1"
  proof -
    have "real a / real p * 2 powi (ea - e) = (real a * 2 powi ea) / (real p * 2 powi e)"
      by (simp add: power_int_diff)
    then show ?thesis unfolding a(2) y1_def r_def .
  qed
  have d: "divide (Finite False a ea) (Finite False p e) = roundScaled False a p (ea - e)"
    using apos assms(4) by simp
  have "real a / real p * 2 powi (ea - e) < 2 ^ 1023"
    unfolding q using y1hi by (rule less_trans) simp
  moreover have "2 powi (- 1022) \<le> real a / real p * 2 powi (ea - e)"
    unfolding q using tiny y1lo by (rule order_trans)
  ultimately obtain b eb where
    b: "roundScaled False a p (ea - e) = Finite False b eb"
       "\<bar>real b * 2 powi eb - y1\<bar> \<le> y1 / 2 ^ 53"
    using roundScaled_near[OF apos assms(4), of "ea - e" False] unfolding q by blast
  define B where "B = real b * 2 powi eb"
  have Bn: "\<bar>B - y1\<bar> \<le> y1 / 2 ^ 53" using b(2) unfolding B_def .
  have half: "y1 / 2 ^ 53 \<le> y1 / 2" using y1pos by simp
  have Blo: "y1 / 2 \<le> B" using Bn half by linarith
  have Bhi: "B \<le> 2 * y1" using Bn half y1pos by linarith
  have bpos: "0 < b"
  proof (cases b)
    case 0
    then have "B = 0" unfolding B_def by simp
    then show ?thesis using Blo y1pos by simp
  qed simp
  have m: "multiply (Finite False b eb) (Finite False 1000 0) = roundScaled False (b * 1000) 1 (eb + 0)"
    using bpos by simp
  have y2: "real (b * 1000) / real 1 * 2 powi (eb + 0) = 1000 * B" unfolding B_def by simp
  have "real (b * 1000) / real 1 * 2 powi (eb + 0) < 2 ^ 1023"
  proof -
    have "1000 * B \<le> 2000 * y1" using Bhi by simp
    also have "\<dots> < 2 ^ 11 * 2 ^ 953" using y1hi y1pos by (intro mult_strict_mono) simp_all
    also have "\<dots> = (2::real) ^ (11 + 953)" by (rule power_add[symmetric])
    also have "\<dots> = (2::real) ^ 964" by simp
    also have "\<dots> < 2 ^ 1023" by simp
    finally show ?thesis unfolding y2 .
  qed
  moreover have "2 powi (- 1022) \<le> real (b * 1000) / real 1 * 2 powi (eb + 0)"
  proof -
    have "1 / 2 ^ 1000 \<le> y1" by (rule y1lo)
    also have "\<dots> \<le> 1000 * B" using Blo y1pos by simp
    finally show ?thesis unfolding y2 using tiny by simp
  qed
  moreover have "0 < b * 1000" using bpos by simp
  ultimately obtain c ec where
    c: "roundScaled False (b * 1000) 1 (eb + 0) = Finite False c ec"
       "\<bar>real c * 2 powi ec - 1000 * B\<bar> \<le> 1000 * B / 2 ^ 53"
    using roundScaled_near[of "b * 1000" 1 "eb + 0" False, OF _ zero_less_one] unfolding y2
    by blast
  define x where "x = real c * 2 powi ec"
  have xn: "\<bar>x - 1000 * B\<bar> \<le> 1000 * B / 2 ^ 53" using c(2) unfolding x_def .
  obtain k where k: "Math_round (Finite False c ec) = Integer False k"
    "real k - 1 / 2 \<le> x" "x < real k + 1 / 2"
    using Math_round_near[of c ec] unfolding x_def by blast
  have ms: "framesToMilliseconds (parseInt f) (Finite False p e) = Integer False k"
    unfolding framesToMilliseconds_def a(1) d b(1) m c(1) by (rule k(1))
  have err: "\<bar>x - y1 * 1000\<bar> \<le> y1 * 1000 / 2 ^ 51"
  proof -
    have 1: "1000 * B / 2 ^ 53 \<le> 2000 * y1 / 2 ^ 53" using Bhi by simp
    have 2: "\<bar>1000 * B - 1000 * y1\<bar> \<le> 1000 * y1 / 2 ^ 53"
      using Bn by linarith
    have "\<bar>x - y1 * 1000\<bar> \<le> 2000 * y1 / 2 ^ 53 + 1000 * y1 / 2 ^ 53" using xn 1 2 by linarith
    also have "\<dots> = y1 * 3000 / 2 ^ 53" by simp
    also have "\<dots> \<le> y1 * 4000 / 2 ^ 53" using y1pos by (intro divide_right_mono mult_left_mono) simp_all
    also have "\<dots> = y1 * 1000 / 2 ^ 51" by simp
    finally show ?thesis .
  qed
  have "framesToMilliseconds (parseInt f) (Finite False p e) = Integer False k
      \<and> real k - 1 / 2 \<le> x \<and> x < real k + 1 / 2
      \<and> \<bar>x - real (digitsValue f) / (real p * 2 powi e) * 1000\<bar>
          \<le> real (digitsValue f) / (real p * 2 powi e) * 1000 / 2 ^ 51"
    using ms k(2,3) err unfolding y1_def r_def v_def by (intro conjI)
  then show ?thesis by (intro exI)
qed

lemma digitsValue_snoc: "digitsValue (ds @ [d]) = 10 * digitsValue ds + (d - 48)"
  by (simp add: digitsValue_def)

lemma digitsValue_decimal: "digitsValue (decimal k) = k"
proof (induction k rule: decimal.induct)
  case (1 k)
  show ?case
  proof (cases "k < 10")
    case True
    then show ?thesis by (simp add: decimal.simps[of k] digitsValue_def)
  next
    case False
    then have "decimal k = decimal (k div 10) @ [48 + k mod 10]"
      by (simp add: decimal.simps[of k])
    then show ?thesis using "1.IH"[OF False] by (simp add: digitsValue_snoc)
  qed
qed

lemma Number_toString_small: "k < 2 ^ 53 \<Longrightarrow> Number_toString (Integer False k) = decimal k"
  by (simp add: js_def decimal.simps[of 0])

section \<open>The timestamp of a timecode\<close>

text \<open>
  Claim C2. When the timecode splits at its semicolons and colons into the four parts
  \<open>h\<close>, \<open>m\<close>, \<open>s\<close> and \<open>f\<close>, \<open>convertTimecode\<close> returns, for every frame rate, the
  three first parts as they are, each padded with zeros on the left to two characters,
  between colons, then a comma and the milliseconds padded to three characters. The
  padding never shortens a text, so seconds of \<open>75\<close> stay \<open>75\<close> and milliseconds
  above 999 keep all their digits. When \<open>f\<close> is a run of digits of value \<open>n\<close> and the
  frame rate a positive binary64 number \<open>r\<close>, the milliseconds are the integer \<open>k\<close>
  nearest to a number \<open>x\<close>, the greater one when two are equally near, where \<open>x\<close> is
  \<open>n / r * 1000\<close> as binary64 arithmetic computes it, within the relative error
  \<open>2\<^sup>-\<^sup>5\<^sup>1\<close> of the exact quotient; and \<open>k\<close> is printed in decimal notation.
\<close>

theorem convertTimecode_of_four_parts:
  assumes "split isSeparator tc = [h, m, s, f]"
  shows "convertTimecode tc fps =
    Inr (padStart 2 h @ js '':'' @ padStart 2 m @ js '':'' @ padStart 2 s @ js '',''
         @ padStart 3 (Number_toString (framesToMilliseconds (parseInt f) fps)))
    \<and> padStart 2 h = replicate (2 - length h) 48 @ h
    \<and> padStart 2 m = replicate (2 - length m) 48 @ m
    \<and> padStart 2 s = replicate (2 - length s) 48 @ s
    \<and> padStart 3 (Number_toString (framesToMilliseconds (parseInt f) fps)) =
        replicate (3 - length (Number_toString (framesToMilliseconds (parseInt f) fps))) 48
        @ Number_toString (framesToMilliseconds (parseInt f) fps)
    \<and> (f \<noteq> [] \<and> list_all isDigit f \<and> digitsValue f < 2 ^ 53
        \<and> fps = Finite False p e \<and> 0 < p
        \<and> 1 / 2 ^ 900 \<le> real p * 2 powi e \<and> real p * 2 powi e \<le> 2 ^ 1000 \<longrightarrow>
       (\<exists>k x. framesToMilliseconds (parseInt f) fps = Integer False k
          \<and> real k - 1 / 2 \<le> x \<and> x < real k + 1 / 2
          \<and> \<bar>x - real (digitsValue f) / (real p * 2 powi e) * 1000\<bar>
              \<le> real (digitsValue f) / (real p * 2 powi e) * 1000 / 2 ^ 51
          \<and> (k < 2 ^ 53 \<longrightarrow>
                Number_toString (Integer False k) = decimal k \<and> digitsValue (decimal k) = k)))"
proof -
  have format: "convertTimecode tc fps =
    Inr (padStart 2 h @ js '':'' @ padStart 2 m @ js '':'' @ padStart 2 s @ js '',''
         @ padStart 3 (Number_toString (framesToMilliseconds (parseInt f) fps)))"
    by (rule convertTimecode_four[OF assms])
  have pads: "padStart 2 h = replicate (2 - length h) 48 @ h"
    "padStart 2 m = replicate (2 - length m) 48 @ m"
    "padStart 2 s = replicate (2 - length s) 48 @ s"
    "padStart 3 (Number_toString (framesToMilliseconds (parseInt f) fps)) =
        replicate (3 - length (Number_toString (framesToMilliseconds (parseInt f) fps))) 48
        @ Number_toString (framesToMilliseconds (parseInt f) fps)"
    by (simp_all add: padStart_def)
  have rounding: "\<exists>k x. framesToMilliseconds (parseInt f) fps = Integer False k
          \<and> real k - 1 / 2 \<le> x \<and> x < real k + 1 / 2
          \<and> \<bar>x - real (digitsValue f) / (real p * 2 powi e) * 1000\<bar>
              \<le> real (digitsValue f) / (real p * 2 powi e) * 1000 / 2 ^ 51
          \<and> (k < 2 ^ 53 \<longrightarrow>
                Number_toString (Integer False k) = decimal k \<and> digitsValue (decimal k) = k)"
    if h: "f \<noteq> []" "list_all isDigit f" "digitsValue f < 2 ^ 53" "fps = Finite False p e" "0 < p"
      "1 / 2 ^ 900 \<le> real p * 2 powi e" "real p * 2 powi e \<le> 2 ^ 1000"
  proof -
    from framesToMilliseconds_near[OF h(1,2,3,5,6,7)] obtain k x where
      kx: "framesToMilliseconds (parseInt f) (Finite False p e) = Integer False k"
        "real k - 1 / 2 \<le> x" "x < real k + 1 / 2"
        "\<bar>x - real (digitsValue f) / (real p * 2 powi e) * 1000\<bar>
              \<le> real (digitsValue f) / (real p * 2 powi e) * 1000 / 2 ^ 51"
      by blast
    have "k < 2 ^ 53 \<longrightarrow>
        Number_toString (Integer False k) = decimal k \<and> digitsValue (decimal k) = k"
      using Number_toString_small digitsValue_decimal by blast
    then show ?thesis using kx unfolding h(4) by blast
  qed
  show ?thesis using format pads rounding by blast
qed

section \<open>Worked examples\<close>

text \<open>Unfolding the numbers and the conversion on a concrete timecode.\<close>

lemma replicate_small:
  "replicate 1 x = [x]" "replicate 2 x = [x, x]" "replicate 3 x = [x, x, x]"
  by (simp_all add: numeral_2_eq_2 numeral_3_eq_3)

lemmas numbers =
  framesToMilliseconds_def parseInt_def digitsValue_def roundToDouble_def roundScaled_def
  bitlen.simps decimal.simps replicate_small

lemmas conversion = convertTimecode_def chars strings numbers Let_def

lemma timestamp_03_15:
  "convertTimecode (js ''00;00;03;15'') (Finite False 24 0) = Inr (js ''00:00:03,625'')"
  by (simp add: conversion)

lemma timestamp_06_20:
  "convertTimecode (js ''00;00;06;20'') (Finite False 24 0) = Inr (js ''00:00:06,833'')"
  by (simp add: conversion)

lemma timestamp_06_21:
  "convertTimecode (js ''00;00;06;21'') (Finite False 24 0) = Inr (js ''00:00:06,875'')"
  by (simp add: conversion)

lemma timestamp_09_10:
  "convertTimecode (js ''00;00;09;10'') (Finite False 24 0) = Inr (js ''00:00:09,417'')"
  by (simp add: conversion)

lemma timestamp_01_00:
  "convertTimecode (js ''00;00;01;00'') (Finite False 24 0) = Inr (js ''00:00:01,000'')"
  by (simp add: conversion)

lemma timestamp_02_00:
  "convertTimecode (js ''00;00;02;00'') (Finite False 24 0) = Inr (js ''00:00:02,000'')"
  by (simp add: conversion)

lemma timestamp_03_00:
  "convertTimecode (js ''00;00;03;00'') (Finite False 24 0) = Inr (js ''00:00:03,000'')"
  by (simp add: conversion)

lemma milliseconds_of_10_frames:
  "framesToMilliseconds (parseInt (js ''10'')) (Finite False 24 0) = Integer False 417"
  by (simp add: chars numbers Let_def)

lemma milliseconds_of_99_frames:
  "framesToMilliseconds (parseInt (js ''99'')) (Finite False 24 0) = Integer False 4125"
  by (simp add: chars numbers Let_def)

text \<open>
  Two timecodes at 24 frames per second. In \<open>1;2;75;99\<close> the seconds are out of range
  and the 99 frames are 4125 milliseconds. In \<open>00;00;09;10\<close> the 10 frames are
  416.67 milliseconds, which round up to 417.
\<close>

theorem convertTimecode_of_four_parts_witness:
  "split isSeparator (js ''1;2;75;99'') = [js ''1'', js ''2'', js ''75'', js ''99'']
   \<and> convertTimecode (js ''1;2;75;99'') (Finite False 24 0) = Inr (js ''01:02:75,4125'')
   \<and> padStart 2 (js ''75'') = js ''75''
   \<and> padStart 3 (Number_toString (framesToMilliseconds (parseInt (js ''99'')) (Finite False 24 0)))
       = js ''4125''
   \<and> split isSeparator (js ''00;00;09;10'') = [js ''00'', js ''00'', js ''09'', js ''10'']
   \<and> js ''10'' \<noteq> [] \<and> list_all isDigit (js ''10'') \<and> digitsValue (js ''10'') < 2 ^ 53
   \<and> (0::nat) < 24 \<and> 1 / 2 ^ 900 \<le> real 24 * 2 powi 0 \<and> real 24 * 2 powi 0 \<le> 2 ^ 1000
   \<and> convertTimecode (js ''00;00;09;10'') (Finite False 24 0) = Inr (js ''00:00:09,417'')
   \<and> framesToMilliseconds (parseInt (js ''10'')) (Finite False 24 0) = Integer False 417
   \<and> (\<exists>x. real 417 - 1 / 2 \<le> x \<and> x < real 417 + 1 / 2
          \<and> \<bar>x - real (digitsValue (js ''10'')) / (real 24 * 2 powi 0) * 1000\<bar>
              \<le> real (digitsValue (js ''10'')) / (real 24 * 2 powi 0) * 1000 / 2 ^ 51)
   \<and> Number_toString (Integer False 417) = decimal 417
   \<and> digitsValue (decimal 417) = 417"
proof -
  have h: "split isSeparator (js ''1;2;75;99'') = [js ''1'', js ''2'', js ''75'', js ''99'']"
    by (simp add: chars)
  note t = convertTimecode_of_four_parts[OF h, of "Finite False 24 0" 24 0, THEN conjunct1]
  have ms: "Number_toString (framesToMilliseconds (parseInt (js ''99'')) (Finite False 24 0))
            = js ''4125''"
    unfolding milliseconds_of_99_frames by (simp add: chars numbers)
  have p: "padStart 2 (js ''1'') = js ''01''" "padStart 2 (js ''2'') = js ''02''"
    "padStart 2 (js ''75'') = js ''75''" "padStart 3 (js ''4125'') = js ''4125''"
    by (simp_all add: chars strings replicate_small)
  have c: "convertTimecode (js ''1;2;75;99'') (Finite False 24 0) =
      Inr (js ''01'' @ js '':'' @ js ''02'' @ js '':'' @ js ''75'' @ js '','' @ js ''4125'')"
    using t unfolding ms p .
  have j: "js ''01'' @ js '':'' @ js ''02'' @ js '':'' @ js ''75'' @ js '','' @ js ''4125''
           = js ''01:02:75,4125''"
    by (simp add: js_def)
  have q: "padStart 3 (Number_toString
              (framesToMilliseconds (parseInt (js ''99'')) (Finite False 24 0))) = js ''4125''"
    unfolding ms by (rule p(4))
  have first: "split isSeparator (js ''1;2;75;99'') = [js ''1'', js ''2'', js ''75'', js ''99'']
   \<and> convertTimecode (js ''1;2;75;99'') (Finite False 24 0) = Inr (js ''01:02:75,4125'')
   \<and> padStart 2 (js ''75'') = js ''75''
   \<and> padStart 3 (Number_toString (framesToMilliseconds (parseInt (js ''99'')) (Finite False 24 0)))
       = js ''4125''"
    using h c[unfolded j] p(3) q by (intro conjI)
  have h2: "split isSeparator (js ''00;00;09;10'') = [js ''00'', js ''00'', js ''09'', js ''10'']"
    by (simp add: chars)
  have d: "js ''10'' \<noteq> []" "list_all isDigit (js ''10'')" "digitsValue (js ''10'') < 2 ^ 53"
    by (simp_all add: chars digitsValue_def)
  have r: "(0::nat) < 24" "1 / 2 ^ 900 \<le> real 24 * 2 powi 0" "real 24 * 2 powi 0 \<le> 2 ^ 1000"
  proof -
    show "(0::nat) < 24" by simp
    have "1 / 2 ^ 900 \<le> (1::real)" by simp
    then show "1 / 2 ^ 900 \<le> real 24 * 2 powi 0" by simp
    have "(1::real) \<le> 2 ^ 1000" by (rule one_le_power) simp
    moreover have "(24::real) \<le> 2 ^ 5" by simp
    moreover have "(2::real) ^ 5 \<le> 2 ^ 1000" by (rule power_increasing) simp_all
    ultimately show "real 24 * 2 powi 0 \<le> 2 ^ 1000" by simp
  qed
  note t2 = convertTimecode_of_four_parts[OF h2, of "Finite False 24 0" 24 0]
  from t2 d r obtain k x where kx:
    "framesToMilliseconds (parseInt (js ''10'')) (Finite False 24 0) = Integer False k"
    "real k - 1 / 2 \<le> x" "x < real k + 1 / 2"
    "\<bar>x - real (digitsValue (js ''10'')) / (real 24 * 2 powi 0) * 1000\<bar>
       \<le> real (digitsValue (js ''10'')) / (real 24 * 2 powi 0) * 1000 / 2 ^ 51"
    "k < 2 ^ 53 \<longrightarrow>
       Number_toString (Integer False k) = decimal k \<and> digitsValue (decimal k) = k"
    by blast
  have k: "k = 417" using kx(1) unfolding milliseconds_of_10_frames by simp
  have ex: "\<exists>x. real 417 - 1 / 2 \<le> x \<and> x < real 417 + 1 / 2
          \<and> \<bar>x - real (digitsValue (js ''10'')) / (real 24 * 2 powi 0) * 1000\<bar>
              \<le> real (digitsValue (js ''10'')) / (real 24 * 2 powi 0) * 1000 / 2 ^ 51"
    using kx(2,3,4) unfolding k by blast
  have pr: "Number_toString (Integer False 417) = decimal 417" "digitsValue (decimal 417) = 417"
    using kx(5) unfolding k by simp_all
  from first h2 d r timestamp_09_10 milliseconds_of_10_frames ex pr
  show ?thesis by (intro conjI) (elim conjE, assumption)+
qed

text \<open>
  The quotient is the one of binary64 arithmetic: at the frame rate 285.7142857142857,
  which is \<open>5026338869833143 * 2\<^sup>-\<^sup>4\<^sup>4\<close>, one frame gives exactly 3.5 and so 4 milliseconds,
  where the exact quotient is below 3.5.
\<close>

lemma binary64_example:
  "convertTimecode (js ''00;00;00;01'') (Finite False 5026338869833143 (- 44))
     = Inr (js ''00:00:00,004'')
   \<and> real 1 / (real 5026338869833143 * 2 powi (- 44)) * 1000 < 7 / 2"
proof -
  have "convertTimecode (js ''00;00;00;01'') (Finite False 5026338869833143 (- 44))
     = Inr (js ''00:00:00,004'')"
    by (simp add: conversion)
  moreover have "real 1 / (real 5026338869833143 * 2 powi (- 44)) * 1000 < 7 / 2"
    by (simp add: powi_split[of "- 44"])
  ultimately show ?thesis by (rule conjI)
qed

lemmas timestamps =
  timestamp_03_15[unfolded js_def, simplified] timestamp_06_20[unfolded js_def, simplified]
  timestamp_06_21[unfolded js_def, simplified] timestamp_09_10[unfolded js_def, simplified]
  timestamp_01_00[unfolded js_def, simplified] timestamp_02_00[unfolded js_def, simplified]
  timestamp_03_00[unfolded js_def, simplified]

lemmas scanning = chars pattern strings parsing decimal.simps timestamps

lemma example_cues:
  "collect
     (js ''00;00;03;15 - 00;00;06;20'' @ [10] @ js ''Hello world'' @ [10] @ [10]
      @ js ''00;00;06;21 - 00;00;09;10'' @ [10] @ js ''Second line'')
     (Finite False 24 0) =
   Inr [\<lparr>startTime = js ''00:00:03,625'', endTime = js ''00:00:06,833'',
         text' = Some (js ''Hello world'')\<rparr>,
        \<lparr>startTime = js ''00:00:06,875'', endTime = js ''00:00:09,417'',
         text' = Some (js ''Second line'')\<rparr>]"
  by (simp add: scanning)

lemma example_document:
  "parseAndConvert
     (js ''00;00;03;15 - 00;00;06;20'' @ [10] @ js ''Hello world'' @ [10] @ [10]
      @ js ''00;00;06;21 - 00;00;09;10'' @ [10] @ js ''Second line'')
     (Finite False 24 0) =
   Inr (js ''1'' @ [10] @ js ''00:00:03,625 --> 00:00:06,833'' @ [10] @ js ''Hello world'' @ [10]
        @ [10]
        @ js ''2'' @ [10] @ js ''00:00:06,875 --> 00:00:09,417'' @ [10] @ js ''Second line'')"
  by (simp add: scanning)

text \<open>
  Claim C1. At 24 frames per second the transcript of the example gives two cues, the
  first from \<open>00:00:03,625\<close> to \<open>00:00:06,833\<close> with the text \<open>Hello world\<close>, the second
  from \<open>00:00:06,875\<close> to \<open>00:00:09,417\<close> with the text \<open>Second line\<close>. The document
  numbers them 1 and 2, joins the two timestamps of a cue with \<open> --> \<close>, and ends
  with the last text, the trailing line feeds trimmed.
\<close>

theorem example_at_24_frames_per_second:
  "collect
     (js ''00;00;03;15 - 00;00;06;20'' @ [10] @ js ''Hello world'' @ [10] @ [10]
      @ js ''00;00;06;21 - 00;00;09;10'' @ [10] @ js ''Second line'')
     (Finite False 24 0) =
   Inr [\<lparr>startTime = js ''00:00:03,625'', endTime = js ''00:00:06,833'',
         text' = Some (js ''Hello world'')\<rparr>,
        \<lparr>startTime = js ''00:00:06,875'', endTime = js ''00:00:09,417'',
         text' = Some (js ''Second line'')\<rparr>]
   \<and> parseAndConvert
     (js ''00;00;03;15 - 00;00;06;20'' @ [10] @ js ''Hello world'' @ [10] @ [10]
      @ js ''00;00;06;21 - 00;00;09;10'' @ [10] @ js ''Second line'')
     (Finite False 24 0) =
   Inr (js ''1'' @ [10] @ js ''00:00:03,625 --> 00:00:06,833'' @ [10] @ js ''Hello world'' @ [10]
        @ [10]
        @ js ''2'' @ [10] @ js ''00:00:06,875 --> 00:00:09,417'' @ [10] @ js ''Second line'')"
  using example_cues example_document by (rule conjI)

text \<open>
  Claim C8, as the code has it. The claim expects a timestamp of the document to come
  back unchanged from the timestamp formatter. The document of the example holds the
  timestamp \<open>00:00:03,625\<close>, and \<open>convertTimecode\<close> throws on it.
\<close>

theorem emitted_timestamp_does_not_round_trip:
  "parseAndConvert
     (js ''00;00;03;15 - 00;00;06;20'' @ [10] @ js ''Hello world'' @ [10] @ [10]
      @ js ''00;00;06;21 - 00;00;09;10'' @ [10] @ js ''Second line'')
     (Finite False 24 0) =
   Inr (js ''1'' @ [10] @ js ''00:00:03,625 --> 00:00:06,833'' @ [10] @ js ''Hello world'' @ [10]
        @ [10]
        @ js ''2'' @ [10] @ js ''00:00:06,875 --> 00:00:09,417'' @ [10] @ js ''Second line'')
   \<and> convertTimecode (js ''00:00:03,625'') (Finite False 24 0) =
       Inl (Error (js ''Invalid timecode format: 00:00:03,625''))"
proof -
  have "convertTimecode (js ''00:00:03,625'') (Finite False 24 0) =
       Inl (Error (js ''Invalid timecode format: 00:00:03,625''))"
    by (simp add: convertTimecode_def chars)
  with example_document show ?thesis by (rule conjI)
qed

theorem emitted_timestamps_are_rejected_witness:
  "parseAndConvert
     (js ''00;00;03;15 - 00;00;06;20'' @ [10] @ js ''Hello world'' @ [10] @ [10]
      @ js ''00;00;06;21 - 00;00;09;10'' @ [10] @ js ''Second line'')
     (Finite False 24 0) =
   Inr (js ''1'' @ [10] @ js ''00:00:03,625 --> 00:00:06,833'' @ [10] @ js ''Hello world'' @ [10]
        @ [10]
        @ js ''2'' @ [10] @ js ''00:00:06,875 --> 00:00:09,417'' @ [10] @ js ''Second line'')
   \<and> (\<exists>subs. collect
     (js ''00;00;03;15 - 00;00;06;20'' @ [10] @ js ''Hello world'' @ [10] @ [10]
      @ js ''00;00;06;21 - 00;00;09;10'' @ [10] @ js ''Second line'')
     (Finite False 24 0) = Inr subs
          \<and> (js ''1'' @ [10] @ js ''00:00:03,625 --> 00:00:06,833'' @ [10] @ js ''Hello world'' @ [10]
        @ [10]
        @ js ''2'' @ [10] @ js ''00:00:06,875 --> 00:00:09,417'' @ [10] @ js ''Second line'') = trim (emit 0 subs)
          \<and> list_all (\<lambda>sub.
                convertTimecode (startTime sub) (Finite False 30 0) =
                  Inl (Error (js ''Invalid timecode format: '' @ startTime sub))
              \<and> convertTimecode (endTime sub) (Finite False 30 0) =
                  Inl (Error (js ''Invalid timecode format: '' @ endTime sub))) subs)"
  using example_document emitted_timestamps_are_rejected[OF example_document, of "Finite False 30 0"]
  by (rule conjI)

text \<open>
  Claim C3, where the code departs from it. \<open>afterTimecode\<close> starts at the first place
  where the text of the second timecode occurs in the line, which is the first timecode
  when the two are the same. For the line \<open>00;00;01;00 - 00;00;01;00 Hello\<close> the text
  of the cue is then \<open>- 00;00;01;00 Hello\<close>, with the dash and the second timecode, and
  not \<open>Hello\<close>.
\<close>

theorem repeated_timecode_enters_the_text:
  "parseAndConvert (js ''00;00;01;00 - 00;00;01;00 Hello'') (Finite False 24 0) =
   Inr (js ''1'' @ [10] @ js ''00:00:01,000 --> 00:00:01,000'' @ [10] @ js ''- 00;00;01;00 Hello'')"
  by (simp add: scanning)

text \<open>
  Claim C7, where the code departs from it. A line with a timecode pair and nothing
  else, followed at once by another such line, should give no cue. When its two
  timecodes are the same, \<open>afterTimecode\<close> is \<open>- 00;00;01;00\<close>, the cue has this text
  and is emitted, so the document has two cues and not one.
\<close>

theorem repeated_timecode_keeps_the_cue:
  "parseAndConvert
     (js ''00;00;01;00 - 00;00;01;00'' @ [10] @ js ''00;00;02;00 - 00;00;03;00'' @ [10]
      @ js ''Hello'')
     (Finite False 24 0) =
   Inr (js ''1'' @ [10] @ js ''00:00:01,000 --> 00:00:01,000'' @ [10] @ js ''- 00;00;01;00'' @ [10]
        @ [10]
        @ js ''2'' @ [10] @ js ''00:00:02,000 --> 00:00:03,000'' @ [10] @ js ''Hello'')"
  by (simp add: scanning)

text \<open>
  Claim C9, where the code departs from it. The two lines
  \<open>00;00;01;00 - 00;00;01;00 Hello\<close> and \<open>00;00;01;00 - 00:00:01:00 Hello\<close> differ in
  the separators of the second timecode only, and the pattern and the timestamps are the
  same for both. The text of the cue is not: with semicolons throughout the second
  timecode is first found where the first one stands, and the text is
  \<open>- 00;00;01;00 Hello\<close>; with colons it is found in its own place, and the text is
  \<open>Hello\<close>.
\<close>

theorem mixed_separators_change_the_text:
  "sameUpToSeparators (js ''00;00;01;00 - 00;00;01;00 Hello'')
     (js ''00;00;01;00 - 00:00:01:00 Hello'')
   \<and> parseAndConvert (js ''00;00;01;00 - 00;00;01;00 Hello'') (Finite False 24 0) =
       Inr (js ''1'' @ [10] @ js ''00:00:01,000 --> 00:00:01,000'' @ [10]
            @ js ''- 00;00;01;00 Hello'')
   \<and> parseAndConvert (js ''00;00;01;00 - 00:00:01:00 Hello'') (Finite False 24 0) =
       Inr (js ''1'' @ [10] @ js ''00:00:01,000 --> 00:00:01,000'' @ [10] @ js ''Hello'')"
proof -
  have colons:
    "convertTimecode (js ''00:00:01:00'') (Finite False 24 0) = Inr (js ''00:00:01,000'')"
    by (simp add: conversion)
  have 1: "sameUpToSeparators (js ''00;00;01;00 - 00;00;01;00 Hello'')
     (js ''00;00;01;00 - 00:00:01:00 Hello'')"
    by (simp add: sameUpToSeparators_def chars)
  have 2: "parseAndConvert (js ''00;00;01;00 - 00;00;01;00 Hello'') (Finite False 24 0) =
       Inr (js ''1'' @ [10] @ js ''00:00:01,000 --> 00:00:01,000'' @ [10]
            @ js ''- 00;00;01;00 Hello'')"
    by (simp add: scanning)
  have 3: "parseAndConvert (js ''00;00;01;00 - 00:00:01:00 Hello'') (Finite False 24 0) =
       Inr (js ''1'' @ [10] @ js ''00:00:01,000 --> 00:00:01,000'' @ [10] @ js ''Hello'')"
    by (simp add: scanning colons[unfolded js_def, simplified])
  from 1 2 3 show ?thesis by (intro conjI)
qed

end
